theory Spec2Isabelle
  imports Complex_Main "HOL-Library.Word" "HOL-Library.List_Lexorder"
begin

section \<open>Strings\<close>

text \<open>
  A JavaScript string is a sequence of 16-bit code units; \<open>length\<close> counts code units and
  the comparison of strings is the lexicographic order of the code units. \<open>js\<close> writes a
  string literal of the source (all of them are ASCII).
\<close>

type_synonym jsstring = "16 word list"

definition js :: "string \<Rightarrow> jsstring" where
  "js s = map (\<lambda>c. of_nat (of_char c)) s"

section \<open>Candidate generator\<close>

definition ALPHABET :: jsstring where
  "ALPHABET = js ''abcdefghijklmnopqrstuvwxyz''"

text \<open>
  \<open>build\<close> is the inner generator of \<open>domainGenerator\<close>, with the sequence it yields
  collected in a list. Each \<open>yield* build(current + letter)\<close> is one level of recursion;
  the first argument bounds the depth of the recursion, and \<open>None\<close> is a recursion that
  exceeds it (for a negative \<open>fillCount\<close> the test \<open>current.length === fillCount\<close> never
  holds and the source recurses without end).
\<close>

fun build :: "nat \<Rightarrow> int \<Rightarrow> jsstring \<Rightarrow> jsstring list option" where
  "build 0 fillCount current = None"
| "build (Suc depth) fillCount current =
     (if int (length current) = fillCount then Some [current]
      else map_option concat
             (those (map (\<lambda>letter. build depth fillCount (current @ [letter])) ALPHABET)))"

definition domainGenerator :: "nat \<Rightarrow> int \<Rightarrow> jsstring \<Rightarrow> jsstring \<Rightarrow> jsstring list option" where
  "domainGenerator depth len prefix suffix =
     (let fillCount = len - int (length prefix) - int (length suffix) in
      if fillCount = 0 then Some [prefix @ suffix]
      else map_option (map (\<lambda>middle. prefix @ middle @ suffix)) (build depth fillCount []))"

text \<open>
  Every string of \<open>k\<close> letters of the alphabet, the first letter varying slowest: the
  sequence of middle segments that the contract of the generator describes. It is used to
  state what \<open>build\<close> yields; its length, elements and order are proved below.
\<close>

definition middles :: "nat \<Rightarrow> jsstring list" where
  "middles k = product_lists (replicate k ALPHABET)"

section \<open>Regular expressions and string methods\<close>

text \<open>
  \<open>isWhiteSpace\<close> is the class \<open>\s\<close> of a regular expression, which is also what
  \<open>String.prototype.trim\<close> removes: the white space and line terminator code points of
  ECMAScript. \<open>isWordChar\<close> is the class \<open>\w\<close> (without the \<open>u\<close> flag the \<open>i\<close> flag
  adds nothing to it).
\<close>

definition isWhiteSpace :: "16 word \<Rightarrow> bool" where
  "isWhiteSpace c \<longleftrightarrow>
     c \<in> {9, 10, 11, 12, 13, 32, 160, 5760, 8232, 8233, 8239, 8287, 12288, 65279}
     \<or> (8192 \<le> c \<and> c \<le> 8202)"

definition isWordChar :: "16 word \<Rightarrow> bool" where
  "isWordChar c \<longleftrightarrow>
     (97 \<le> c \<and> c \<le> 122) \<or> (65 \<le> c \<and> c \<le> 90) \<or> (48 \<le> c \<and> c \<le> 57) \<or> c = 95"

text \<open>
  With the \<open>i\<close> flag a pattern character and an input character match when their
  canonical forms (the upper-case code unit) agree. A code unit of 128 or more never
  canonicalises to an ASCII one, and the patterns of the source are ASCII, so only the
  mapping of \<open>a\<close>..\<open>z\<close> matters; other code units are left as they are.
\<close>

definition Canonicalize :: "16 word \<Rightarrow> 16 word" where
  "Canonicalize c = (if 97 \<le> c \<and> c \<le> 122 then c - 32 else c)"

text \<open>
  \<open>toLowerCase\<close> maps \<open>A\<close>..\<open>Z\<close> to \<open>a\<close>..\<open>z\<close>. ECMAScript also maps letters outside
  ASCII. The source applies it to a run of word characters, which is ASCII, and to the
  top-level domain of the configuration, which it only compares with the supported
  identifiers; no letter outside ASCII becomes a letter of one of those.
\<close>

definition toLowerCase :: "jsstring \<Rightarrow> jsstring" where
  "toLowerCase s = map (\<lambda>c. if 65 \<le> c \<and> c \<le> 90 then c + 32 else c) s"

definition trim :: "jsstring \<Rightarrow> jsstring" where
  "trim s = rev (dropWhile isWhiteSpace (rev (dropWhile isWhiteSpace s)))"

text \<open>
  A pattern is modelled by its matcher anchored at the start of the input; \<open>regex_search\<close>
  is the search of \<open>match\<close> and \<open>test\<close> for a pattern without the \<open>g\<close> flag: the start
  positions are tried from left to right (the empty rest included) and the first success
  is the result.
\<close>

fun regex_search :: "(jsstring \<Rightarrow> 'a option) \<Rightarrow> jsstring \<Rightarrow> 'a option" where
  "regex_search m [] = m []"
| "regex_search m (c # cs) =
     (case m (c # cs) of Some r \<Rightarrow> Some r | None \<Rightarrow> regex_search m cs)"

text \<open>A literal pattern with the \<open>i\<close> flag; the result is the input left after it.\<close>

fun match_literal_i :: "jsstring \<Rightarrow> jsstring \<Rightarrow> jsstring option" where
  "match_literal_i [] s = Some s"
| "match_literal_i (p # ps) [] = None"
| "match_literal_i (p # ps) (c # cs) =
     (if Canonicalize p = Canonicalize c then match_literal_i ps cs else None)"

text \<open>
  The pattern \<open>/Status:\s*(\w+)/i\<close>; the result is capture group 1. \<open>\s*\<close> and
  \<open>\w+\<close> are greedy and the two classes are disjoint, so backtracking into \<open>\s*\<close> never
  helps: after the longest run of white space the longest run of word characters is the
  group, and the match fails at this position when that run is empty.
\<close>

definition match_Status :: "jsstring \<Rightarrow> jsstring option" where
  "match_Status s =
     (case match_literal_i (js ''Status:'') s of
        None \<Rightarrow> None
      | Some r \<Rightarrow>
          (let v = takeWhile isWordChar (dropWhile isWhiteSpace r) in
           if v = [] then None else Some v))"

section \<open>Providers\<close>

datatype error = Error jsstring | TypeError

record provider =
  host :: jsstring
  isAvailable :: "jsstring \<Rightarrow> bool"

text \<open>
  The three \<open>isAvailable\<close> functions of \<open>getWhoisProvider\<close>, named after the registry
  they belong to; the regular expressions have no \<open>g\<close> flag, so they keep no state
  between calls.
\<close>

definition isAvailable_denic :: "jsstring \<Rightarrow> bool" where
  "isAvailable_denic output =
     (case regex_search match_Status output of
        Some statusMatch \<Rightarrow> toLowerCase statusMatch = js ''free''
      | None \<Rightarrow> False)"

definition isAvailable_verisign :: "jsstring \<Rightarrow> bool" where
  "isAvailable_verisign output \<longleftrightarrow>
     regex_search (match_literal_i (js ''no match'')) output \<noteq> None"

definition isAvailable_eu :: "jsstring \<Rightarrow> bool" where
  "isAvailable_eu output =
     (case regex_search match_Status output of
        Some statusMatch \<Rightarrow> toLowerCase statusMatch = js ''available''
      | None \<Rightarrow> False)"

definition getWhoisProvider :: "jsstring \<Rightarrow> error + provider" where
  "getWhoisProvider tld =
     (if tld = js ''de'' then
        Inr \<lparr>host = js ''whois.denic.de'', isAvailable = isAvailable_denic\<rparr>
      else if tld = js ''net'' \<or> tld = js ''com'' then
        Inr \<lparr>host = js ''whois.verisign-grs.com'', isAvailable = isAvailable_verisign\<rparr>
      else if tld = js ''eu'' then
        Inr \<lparr>host = js ''whois.eu'', isAvailable = isAvailable_eu\<rparr>
      else Inl (Error (js ''Unsupported TLD: '' @ tld)))"

text \<open>
  Two notions used to state what the \<open>Status:\<close> pattern finds. A string begins with a
  \<open>Status:\<close> field of value \<open>v\<close> when it reads \<open>status:\<close> in any letter case, then
  white space (possibly none), then \<open>v\<close>, a non-empty run of word characters that no
  word character follows. The first \<open>Status:\<close> field of a text is the one at the
  leftmost position where such a field begins.
\<close>

definition status_field :: "jsstring \<Rightarrow> jsstring \<Rightarrow> bool" where
  "status_field s v \<longleftrightarrow>
     (\<exists>key ws rest. s = key @ ws @ v @ rest \<and> toLowerCase key = js ''status:''
        \<and> (\<forall>c\<in>set ws. isWhiteSpace c)
        \<and> v \<noteq> [] \<and> (\<forall>c\<in>set v. isWordChar c)
        \<and> (rest = [] \<or> \<not> isWordChar (hd rest)))"

definition first_status_field :: "jsstring \<Rightarrow> jsstring \<Rightarrow> bool" where
  "first_status_field out v \<longleftrightarrow>
     (\<exists>i\<le>length out. status_field (drop i out) v
        \<and> (\<forall>j<i. \<forall>w. \<not> status_field (drop j out) w))"

section \<open>Regular expression objects\<close>

text \<open>
  The classifiers once more, with the objects they work on made explicit. Each call of
  an \<open>isAvailable\<close> function evaluates its regular expression literal, which creates a
  new RegExp object, and then runs \<open>match\<close> or \<open>test\<close> on it. A RegExp object has the
  property \<open>lastIndex\<close>; with the \<open>g\<close> or \<open>y\<close> flag a search starts there and stores
  where it ended, which is how a pattern can remember the previous call. The store is
  the list of the RegExp objects created so far; an address is a position in it.

  A matcher is a pattern anchored at the start of the rest of the input: it yields
  capture group 1 (empty for a pattern without groups) and the number of code units
  matched.
\<close>

type_synonym matcher = "jsstring \<Rightarrow> (jsstring \<times> nat) option"

definition literal_matcher :: "jsstring \<Rightarrow> matcher" where
  "literal_matcher p s =
     (case match_literal_i p s of None \<Rightarrow> None | Some r \<Rightarrow> Some ([], length p))"

definition Status_matcher :: matcher where
  "Status_matcher s =
     (case match_literal_i (js ''Status:'') s of
        None \<Rightarrow> None
      | Some r \<Rightarrow>
          (let ws = takeWhile isWhiteSpace r;
               v = takeWhile isWordChar (dropWhile isWhiteSpace r) in
           if v = [] then None
           else Some (v, length (js ''Status:'') + length ws + length v)))"

record regexp =
  re_matcher :: matcher
  re_global :: bool
  re_sticky :: bool
  lastIndex :: nat

text \<open>
  The search of \<open>RegExpBuiltinExec\<close> from index \<open>i\<close>, where the string given is the input
  from \<open>i\<close> on: the first index at which the matcher succeeds, with the capture and the
  index where the match ends.
\<close>

fun scan :: "matcher \<Rightarrow> nat \<Rightarrow> jsstring \<Rightarrow> (jsstring \<times> nat) option" where
  "scan m i [] = (case m [] of Some (g, n) \<Rightarrow> Some (g, i + n) | None \<Rightarrow> None)"
| "scan m i (c # cs) =
     (case m (c # cs) of Some (g, n) \<Rightarrow> Some (g, i + n) | None \<Rightarrow> scan m (Suc i) cs)"

text \<open>
  \<open>RegExpBuiltinExec\<close> of ECMAScript: the search starts at \<open>lastIndex\<close>, or at 0 without
  the \<open>g\<close> and \<open>y\<close> flags; with the \<open>y\<close> flag only the start index is tried; with one
  of the two flags \<open>lastIndex\<close> becomes the end of the match, or 0 when there is none.
  The result is the match (if any) and the object afterwards.
\<close>

definition RegExpBuiltinExec ::
  "regexp \<Rightarrow> jsstring \<Rightarrow> (jsstring \<times> nat) option \<times> regexp" where
  "RegExpBuiltinExec R S =
     (let start = (if \<not> re_global R \<and> \<not> re_sticky R then 0 else lastIndex R);
          found =
            (if start > length S then None
             else if re_sticky R then
               (case re_matcher R (drop start S) of
                  Some (g, n) \<Rightarrow> Some (g, start + n)
                | None \<Rightarrow> None)
             else scan (re_matcher R) start (drop start S))
      in case found of
           None \<Rightarrow> (None, if re_global R \<or> re_sticky R then R\<lparr>lastIndex := 0\<rparr> else R)
         | Some (g, e) \<Rightarrow>
             (Some (g, e), if re_global R \<or> re_sticky R then R\<lparr>lastIndex := e\<rparr> else R))"

type_synonym store = "regexp list"

definition new_RegExp :: "matcher \<Rightarrow> bool \<Rightarrow> bool \<Rightarrow> store \<Rightarrow> nat \<times> store" where
  "new_RegExp m g y h =
     (length h, h @ [\<lparr>re_matcher = m, re_global = g, re_sticky = y, lastIndex = 0\<rparr>])"

definition exec_at :: "nat \<Rightarrow> jsstring \<Rightarrow> store \<Rightarrow> (jsstring \<times> nat) option \<times> store" where
  "exec_at a S h =
     (if a < length h
      then (let (r, R) = RegExpBuiltinExec (h ! a) S in (r, h[a := R]))
      else (None, h))"

text \<open>
  The three \<open>isAvailable\<close> functions and \<open>getWhoisProvider\<close> over the store. The
  literals have the \<open>i\<close> flag only, which is part of the matcher.
\<close>

definition isAvailable_denic_store :: "jsstring \<Rightarrow> store \<Rightarrow> bool \<times> store" where
  "isAvailable_denic_store output h =
     (let (re, h1) = new_RegExp Status_matcher False False h;
          (statusMatch, h2) = exec_at re output h1
      in ((case statusMatch of
             Some (g, e) \<Rightarrow> toLowerCase g = js ''free''
           | None \<Rightarrow> False), h2))"

definition isAvailable_verisign_store :: "jsstring \<Rightarrow> store \<Rightarrow> bool \<times> store" where
  "isAvailable_verisign_store output h =
     (let (re, h1) = new_RegExp (literal_matcher (js ''no match'')) False False h;
          (found, h2) = exec_at re output h1
      in (found \<noteq> None, h2))"

definition isAvailable_eu_store :: "jsstring \<Rightarrow> store \<Rightarrow> bool \<times> store" where
  "isAvailable_eu_store output h =
     (let (re, h1) = new_RegExp Status_matcher False False h;
          (statusMatch, h2) = exec_at re output h1
      in ((case statusMatch of
             Some (g, e) \<Rightarrow> toLowerCase g = js ''available''
           | None \<Rightarrow> False), h2))"

record provider_store =
  host_store :: jsstring
  isAvailable_store :: "jsstring \<Rightarrow> store \<Rightarrow> bool \<times> store"

definition getWhoisProvider_store :: "jsstring \<Rightarrow> error + provider_store" where
  "getWhoisProvider_store tld =
     (if tld = js ''de'' then
        Inr \<lparr>host_store = js ''whois.denic.de'', isAvailable_store = isAvailable_denic_store\<rparr>
      else if tld = js ''net'' \<or> tld = js ''com'' then
        Inr \<lparr>host_store = js ''whois.verisign-grs.com'',
             isAvailable_store = isAvailable_verisign_store\<rparr>
      else if tld = js ''eu'' then
        Inr \<lparr>host_store = js ''whois.eu'', isAvailable_store = isAvailable_eu_store\<rparr>
      else Inl (Error (js ''Unsupported TLD: '' @ tld)))"

section \<open>Lookup\<close>

text \<open>
  What the spawned \<open>whois\<close> process does is the environment of the program. Either the
  process cannot be started (the \<open>error\<close> event, with its error), or it closes with an
  exit code (\<open>None\<close> when a signal ended it), after writing its standard output and
  standard error, here the concatenation of the chunks read. A process that never closes
  leaves the promise unsettled and the run waiting; the model covers lookups that settle.
\<close>

datatype proc_result = SpawnFailed error | Closed "int option" jsstring jsstring

type_synonym spawn = "jsstring \<Rightarrow> jsstring list \<Rightarrow> proc_result"

record lookup_result =
  available :: bool
  raw :: jsstring

definition whoisLookup :: "spawn \<Rightarrow> jsstring \<Rightarrow> provider \<Rightarrow> error + lookup_result" where
  "whoisLookup spawn fqdn provider =
     (case spawn (js ''whois'') [js ''-h'', host provider, fqdn] of
        SpawnFailed err \<Rightarrow> Inl err
      | Closed code stdout stderr \<Rightarrow>
          if code \<noteq> Some 0 \<and> stderr \<noteq> [] then Inl (Error (trim stderr))
          else Inr \<lparr>available = isAvailable provider stdout, raw = stdout\<rparr>)"

section \<open>Run loop\<close>

text \<open>
  The loop of \<open>run\<close> owns three variables, \<open>checked\<close>, \<open>taken\<close> and
  \<open>availableDomains\<close>. The state also records what the loop does to the outside, in
  order: the delays it awaits, the lookups it starts and the line it prints for each
  candidate. The counters are naturals (the numbers of the source are exact below
  \<open>2^53\<close>).
\<close>

datatype event =
    Delay rat
  | Lookup jsstring
  | ErrorLine jsstring error
  | ResultLine jsstring bool

record run_state =
  checked :: nat
  taken :: nat
  availableDomains :: "jsstring list"
  trace :: "event list"

definition initial_state :: run_state where
  "initial_state = \<lparr>checked = 0, taken = 0, availableDomains = [], trace = []\<rparr>"

definition emit :: "event \<Rightarrow> run_state \<Rightarrow> run_state" where
  "emit e st = st\<lparr>trace := trace st @ [e]\<rparr>"

text \<open>One iteration of the \<open>for\<close> loop, for the candidate \<open>domain\<close>.\<close>

definition run_step ::
  "rat \<Rightarrow> jsstring \<Rightarrow> provider \<Rightarrow> spawn \<Rightarrow> jsstring \<Rightarrow> run_state \<Rightarrow> run_state" where
  "run_step intervalMs topLevelDomain whoisProvider spawn domain st =
     (let st1 = (if checked st > 0 then emit (Delay intervalMs) st else st);
          fqdn = domain @ js ''.'' @ topLevelDomain;
          st2 = emit (Lookup fqdn) st1
      in case whoisLookup spawn fqdn whoisProvider of
           Inl err \<Rightarrow> emit (ErrorLine fqdn err) st2
         | Inr result \<Rightarrow>
             (let st3 = st2\<lparr>checked := checked st2 + 1\<rparr> in
              if available result then
                emit (ResultLine fqdn True)
                  (st3\<lparr>availableDomains := availableDomains st3 @ [fqdn]\<rparr>)
              else
                emit (ResultLine fqdn False) (st3\<lparr>taken := taken st3 + 1\<rparr>)))"

text \<open>
  The loop over the candidates. \<open>world k\<close> is what spawning a process does at the
  \<open>k\<close>-th lookup of the run, so that the environment may answer every lookup differently.
\<close>

fun run_loop ::
  "rat \<Rightarrow> jsstring \<Rightarrow> provider \<Rightarrow> (nat \<Rightarrow> spawn) \<Rightarrow> nat \<Rightarrow> jsstring list \<Rightarrow> run_state
     \<Rightarrow> run_state" where
  "run_loop intervalMs topLevelDomain whoisProvider world k [] st = st"
| "run_loop intervalMs topLevelDomain whoisProvider world k (domain # rest) st =
     run_loop intervalMs topLevelDomain whoisProvider world (Suc k) rest
       (run_step intervalMs topLevelDomain whoisProvider (world k) domain st)"

text \<open>
  The outcome of a lookup is classified available or classified taken when the lookup
  returned a result with that verdict; an error is neither.
\<close>

definition classified_available :: "error + lookup_result \<Rightarrow> bool" where
  "classified_available outcome = (case outcome of Inl err \<Rightarrow> False | Inr r \<Rightarrow> available r)"

definition classified_taken :: "error + lookup_result \<Rightarrow> bool" where
  "classified_taken outcome = (case outcome of Inl err \<Rightarrow> False | Inr r \<Rightarrow> \<not> available r)"

text \<open>What an iteration appends to the trace depends on the counter \<open>checked\<close> only.\<close>

definition step_events ::
  "rat \<Rightarrow> jsstring \<Rightarrow> provider \<Rightarrow> spawn \<Rightarrow> jsstring \<Rightarrow> nat \<Rightarrow> event list" where
  "step_events iv tld p spawn d n =
     (if n > 0 then [Delay iv] else []) @ [Lookup (d @ js ''.'' @ tld)] @
     (case whoisLookup spawn (d @ js ''.'' @ tld) p of
        Inl err \<Rightarrow> [ErrorLine (d @ js ''.'' @ tld) err]
      | Inr r \<Rightarrow> [ResultLine (d @ js ''.'' @ tld) (available r)])"

text \<open>The fully-qualified names looked up, in order, according to a trace.\<close>

fun lookups :: "event list \<Rightarrow> jsstring list" where
  "lookups [] = []"
| "lookups (Lookup fqdn # es) = fqdn # lookups es"
| "lookups (e # es) = lookups es"

section \<open>Configuration\<close>

text \<open>
  A number of the source is a double: not a number, an infinity or a finite value. The
  finite values are rationals, and the source only tests them (integer, comparisons),
  which is exact.
\<close>

datatype jsnumber = NaN | PosInf | NegInf | Fin rat

text \<open>
  A value read from the parsed JSON. \<open>JObject s\<close> is an array or an object, given by
  the string \<open>s\<close> that its conversion to a primitive yields.
\<close>

datatype jsvalue =
    JUndefined
  | JNull
  | JBoolean bool
  | JNumber jsnumber
  | JString jsstring
  | JObject jsstring

text \<open>
  The conversions between strings and numbers (\<open>StringToNumber\<close> and
  \<open>Number::toString\<close> of ECMAScript) are parameters of the model.
\<close>

record builtins =
  StringToNumber :: "jsstring \<Rightarrow> jsnumber"
  NumberToString :: "jsnumber \<Rightarrow> jsstring"

fun Number_conv :: "builtins \<Rightarrow> jsvalue \<Rightarrow> jsnumber" where
  "Number_conv B JUndefined = NaN"
| "Number_conv B JNull = Fin 0"
| "Number_conv B (JBoolean b) = Fin (if b then 1 else 0)"
| "Number_conv B (JNumber n) = n"
| "Number_conv B (JString s) = StringToNumber B s"
| "Number_conv B (JObject s) = StringToNumber B s"

fun String_conv :: "builtins \<Rightarrow> jsvalue \<Rightarrow> jsstring" where
  "String_conv B JUndefined = js ''undefined''"
| "String_conv B JNull = js ''null''"
| "String_conv B (JBoolean b) = (if b then js ''true'' else js ''false'')"
| "String_conv B (JNumber n) = NumberToString B n"
| "String_conv B (JString s) = s"
| "String_conv B (JObject s) = s"

text \<open>The operator \<open>??\<close>.\<close>

fun nullish :: "jsvalue \<Rightarrow> jsvalue \<Rightarrow> jsvalue" where
  "nullish JUndefined d = d"
| "nullish JNull d = d"
| "nullish v d = v"

fun Number_isInteger :: "jsnumber \<Rightarrow> bool" where
  "Number_isInteger (Fin r) \<longleftrightarrow> of_int \<lfloor>r\<rfloor> = r"
| "Number_isInteger n \<longleftrightarrow> False"

text \<open>The comparison \<open><\<close> of two numbers; it is false when one of them is not a number.\<close>

fun js_less :: "jsnumber \<Rightarrow> jsnumber \<Rightarrow> bool" where
  "js_less (Fin a) (Fin b) \<longleftrightarrow> a < b"
| "js_less NegInf (Fin b) \<longleftrightarrow> True"
| "js_less NegInf PosInf \<longleftrightarrow> True"
| "js_less (Fin a) PosInf \<longleftrightarrow> True"
| "js_less a b \<longleftrightarrow> False"

text \<open>The integer that a number passing \<open>Number.isInteger\<close> is.\<close>

fun int_of_number :: "jsnumber \<Rightarrow> int" where
  "int_of_number (Fin r) = \<lfloor>r\<rfloor>"
| "int_of_number n = 0"

definition MIN_LENGTH :: jsnumber where
  "MIN_LENGTH = Fin 2"

definition MAX_LENGTH :: jsnumber where
  "MAX_LENGTH = Fin 63"

definition DEFAULT_INTERVAL_MS :: jsvalue where
  "DEFAULT_INTERVAL_MS = JNumber (Fin 500)"

definition SUPPORTED_TLDS :: "jsstring list" where
  "SUPPORTED_TLDS = [js ''de'', js ''net'', js ''eu'', js ''com'']"

text \<open>
  What reading and parsing \<open>config.json\<close> gives: no file, text that \<open>JSON.parse\<close>
  rejects (with its message), the value \<open>null\<close> (reading a property of it raises a
  \<open>TypeError\<close>), or a value with the five properties that \<open>readConfig\<close> reads
  (\<open>JUndefined\<close> for a property that is absent).
\<close>

record parsed =
  p_length :: jsvalue
  p_prefix :: jsvalue
  p_suffix :: jsvalue
  p_intervalMs :: jsvalue
  p_topLevelDomain :: jsvalue

datatype config_file = Missing | InvalidJSON jsstring | ParsedNull | Parsed parsed

record config =
  domainLength :: int
  prefix :: jsstring
  suffix :: jsstring
  intervalMs :: rat
  topLevelDomain :: jsstring

text \<open>The pattern \<open>/^$|^[a-z]+$/\<close> holds of the empty string and of strings of \<open>a\<close>..\<open>z\<close>.\<close>

definition validateAffix :: "jsvalue \<Rightarrow> jsstring \<Rightarrow> error + jsstring" where
  "validateAffix v name =
     (case v of
        JString s \<Rightarrow>
          if \<not> (\<forall>c\<in>set s. 97 \<le> c \<and> c \<le> 122)
          then Inl (Error (name @ js '' must only contain lowercase a-z characters.''))
          else Inr s
      | _ \<Rightarrow> Inl (Error (name @ js '' must be a string (letters a-z only).'')))"

definition readConfig :: "builtins \<Rightarrow> config_file \<Rightarrow> error + config" where
  \<open>readConfig B file =
     (case file of
        Missing \<Rightarrow>
          Inl (Error (js ''Missing config.json. Copy config.example.json and adjust values.''))
      | InvalidJSON message \<Rightarrow>
          Inl (Error (js ''config.json contains invalid JSON: '' @ message))
      | ParsedNull \<Rightarrow> Inl TypeError
      | Parsed p \<Rightarrow>
          (let len = Number_conv B (p_length p) in
           if \<not> Number_isInteger len \<or> js_less len MIN_LENGTH \<or> js_less MAX_LENGTH len
           then Inl (Error (js ''"length" must be an integer between 2 and 63.''))
           else
             case validateAffix (nullish (p_prefix p) (JString [])) (js ''prefix'') of
               Inl err \<Rightarrow> Inl err
             | Inr pre \<Rightarrow>
                 (case validateAffix (nullish (p_suffix p) (JString [])) (js ''suffix'') of
                    Inl err \<Rightarrow> Inl err
                  | Inr suf \<Rightarrow>
                      if int (length pre) + int (length suf) \<ge> int_of_number len
                      then Inl (Error (js
                        ''prefix + suffix length must be shorter than the domain length.''))
                      else
                        (case nullish (p_intervalMs p) DEFAULT_INTERVAL_MS of
                           JNumber (Fin interval) \<Rightarrow>
                             if interval < 0
                             then Inl (Error (js
                               ''intervalMs must be a non-negative number of milliseconds when provided.''))
                             else
                               (let tld = toLowerCase
                                      (String_conv B (nullish (p_topLevelDomain p) (JString (js ''de''))))
                                in if tld \<notin> set SUPPORTED_TLDS
                                   then Inl (Error (js
                                     ''topLevelDomain must be one of: de, net, eu, com''))
                                   else Inr \<lparr>domainLength = int_of_number len, prefix = pre,
                                             suffix = suf, intervalMs = interval,
                                             topLevelDomain = tld\<rparr>)
                         | _ \<Rightarrow> Inl (Error (js
                             ''intervalMs must be a non-negative number of milliseconds when provided.''))))))\<close>

text \<open>
  \<open>case_variant s t\<close>: the string \<open>s\<close> is \<open>t\<close> with any of its letters \<open>a\<close>..\<open>z\<close>
  written in upper case (for a \<open>t\<close> without upper-case letters).
\<close>

definition case_variant :: "jsstring \<Rightarrow> jsstring \<Rightarrow> bool" where
  "case_variant s t \<longleftrightarrow>
     list_all2 (\<lambda>c d. c = d \<or> (65 \<le> c \<and> c \<le> 90 \<and> d = c + 32)) s t"

section \<open>The run\<close>

text \<open>
  How a run ends: \<open>readConfig\<close> raised (the process exits with status 1 before anything
  else happens), another error escaped \<open>run\<close>, or the loop reached the end of the
  candidates with the final state, which holds the summary.
\<close>

datatype run_result =
    ConfigurationError error
  | UnexpectedError error
  | Completed run_state

text \<open>
  The part of \<open>run\<close> after the configuration is read. The generator object is created
  first, but its body only runs when the loop asks for the first candidate, after the
  provider is selected. \<open>None\<close> is a generator whose recursion exceeds \<open>depth\<close>.
\<close>

definition run_config :: "nat \<Rightarrow> config \<Rightarrow> (nat \<Rightarrow> spawn) \<Rightarrow> run_result option" where
  "run_config depth cfg world =
     (case getWhoisProvider (topLevelDomain cfg) of
        Inl err \<Rightarrow> Some (UnexpectedError err)
      | Inr whoisProvider \<Rightarrow>
          (case domainGenerator depth (domainLength cfg) (prefix cfg) (suffix cfg) of
             None \<Rightarrow> None
           | Some domains \<Rightarrow>
               Some (Completed
                 (run_loop (intervalMs cfg) (topLevelDomain cfg) whoisProvider world 0 domains
                    initial_state))))"

definition run :: "builtins \<Rightarrow> nat \<Rightarrow> config_file \<Rightarrow> (nat \<Rightarrow> spawn) \<Rightarrow> run_result option" where
  "run B depth file world =
     (case readConfig B file of
        Inl err \<Rightarrow> Some (ConfigurationError err)
      | Inr cfg \<Rightarrow> run_config depth cfg world)"

section \<open>The candidates of the generator\<close>

lemma those_map_Some:
  "(\<And>x. x \<in> set xs \<Longrightarrow> f x = Some (g x)) \<Longrightarrow> those (map f xs) = Some (map g xs)"
  by (induction xs) simp_all

lemma those_map_None:
  "x \<in> set xs \<Longrightarrow> f x = None \<Longrightarrow> those (map f xs) = None"
  by (induction xs) (auto split: option.splits)

lemma middles_0: "middles 0 = [[]]"
  by (simp add: middles_def)

lemma middles_Suc:
  "middles (Suc k) = concat (map (\<lambda>letter. map ((#) letter) (middles k)) ALPHABET)"
  by (simp add: middles_def)

lemma concat_map_append_letter:
  "concat (map (\<lambda>letter. map ((@) (cur @ [letter])) ms) A) =
   map ((@) cur) (concat (map (\<lambda>letter. map ((#) letter) ms) A))"
  by (induction A) simp_all

lemma build_enough:
  "int (length cur) + int k = fc \<Longrightarrow> k < depth \<Longrightarrow>
   build depth fc cur = Some (map ((@) cur) (middles k))"
proof (induction depth arbitrary: cur k)
  case 0
  then show ?case by simp
next
  case (Suc depth)
  show ?case
  proof (cases k)
    case 0
    with Suc.prems show ?thesis by (simp add: middles_0)
  next
    case (Suc k')
    have rec: "build depth fc (cur @ [letter]) = Some (map ((@) (cur @ [letter])) (middles k'))"
      for letter
      using Suc.prems Suc by (intro Suc.IH) simp_all
    have "those (map (\<lambda>letter. build depth fc (cur @ [letter])) ALPHABET) =
          Some (map (\<lambda>letter. map ((@) (cur @ [letter])) (middles k')) ALPHABET)"
      by (rule those_map_Some) (rule rec)
    moreover have "int (length cur) \<noteq> fc"
      using Suc.prems Suc by simp
    ultimately show ?thesis
      by (simp add: Suc middles_Suc concat_map_append_letter)
  qed
qed

lemma a_in_ALPHABET: "97 \<in> set ALPHABET"
  by (simp add: ALPHABET_def js_def)

lemma build_diverges:
  "fc < int (length cur) \<Longrightarrow> build depth fc cur = None"
proof (induction depth arbitrary: cur)
  case 0
  then show ?case by simp
next
  case (Suc depth)
  have "build depth fc (cur @ [97]) = None"
    using Suc.prems by (intro Suc.IH) simp
  then have "those (map (\<lambda>letter. build depth fc (cur @ [letter])) ALPHABET) = None"
    using a_in_ALPHABET by (rule those_map_None [rotated])
  then show ?case using Suc.prems by simp
qed

lemma length_middles: "length (middles k) = 26 ^ k"
proof -
  have "foldr (*) (replicate k (26::nat)) 1 = 26 ^ k"
    by (induction k) simp_all
  moreover have "length ALPHABET = 26"
    by (simp add: ALPHABET_def js_def)
  ultimately show ?thesis
    by (simp add: middles_def length_product_lists)
qed

lemma list_all2_replicate:
  "list_all2 (\<lambda>x ys. x \<in> set ys) m (replicate k A) \<longleftrightarrow> length m = k \<and> set m \<subseteq> set A"
proof (induction k arbitrary: m)
  case 0
  then show ?case by auto
next
  case (Suc k)
  then show ?case by (cases m) auto
qed

lemma set_middles: "set (middles k) = {m. length m = k \<and> set m \<subseteq> set ALPHABET}"
  by (simp add: middles_def product_lists_set list_all2_replicate)

lemma sorted_wrt_concat_map:
  "sorted_wrt P (concat (map f xs)) \<longleftrightarrow>
     (\<forall>x\<in>set xs. sorted_wrt P (f x)) \<and>
     sorted_wrt (\<lambda>x y. \<forall>a\<in>set (f x). \<forall>b\<in>set (f y). P a b) xs"
  by (induction xs) (auto simp: sorted_wrt_append)

lemma ALPHABET_sorted: "sorted_wrt (<) ALPHABET"
  by (simp add: ALPHABET_def js_def)

lemma sorted_middles: "sorted_wrt (<) (middles k)"
proof (induction k)
  case 0
  then show ?case by (simp add: middles_0)
next
  case (Suc k)
  have inner: "sorted_wrt (<) (map ((#) letter) (middles k))" for letter
    using Suc by (simp add: sorted_wrt_map list_less_def)
  have outer: "sorted_wrt (\<lambda>x y. \<forall>a\<in>set (map ((#) x) (middles k)).
                  \<forall>b\<in>set (map ((#) y) (middles k)). a < b) ALPHABET"
    by (rule sorted_wrt_mono_rel [OF _ ALPHABET_sorted]) (auto simp: list_less_def)
  show ?case
    unfolding middles_Suc sorted_wrt_concat_map using inner outer by blast
qed


lemma domainGenerator_enough:
  assumes "int (length pre) + int (length suf) + int k = len" and "k < depth"
  shows "domainGenerator depth len pre suf =
           Some (map (\<lambda>middle. pre @ middle @ suf) (middles k))"
proof (cases k)
  case 0
  with assms show ?thesis by (simp add: domainGenerator_def middles_0)
next
  case (Suc k')
  have "build depth (int k) [] = Some (map ((@) []) (middles k))"
    using assms(2) by (intro build_enough) simp_all
  moreover have "len - int (length pre) - int (length suf) = int k"
    using assms(1) by simp
  ultimately show ?thesis
    using Suc by (simp add: domainGenerator_def)
qed

lemma middles_nonempty: "middles k \<noteq> []"
  using length_middles [of k] by auto

lemma ALPHABET_first: "ALPHABET = 97 # tl ALPHABET"
  by (simp add: ALPHABET_def js_def)

lemma ALPHABET_last: "ALPHABET = butlast ALPHABET @ [122]"
  by (simp add: ALPHABET_def js_def)

lemma hd_middles: "hd (middles k) = replicate k 97"
proof (induction k)
  case 0
  then show ?case by (simp add: middles_0)
next
  case (Suc k)
  have "middles (Suc k) =
          map ((#) 97) (middles k) @
          concat (map (\<lambda>letter. map ((#) letter) (middles k)) (tl ALPHABET))"
    unfolding middles_Suc by (subst ALPHABET_first) simp
  then show ?case
    using Suc middles_nonempty [of k] by (simp add: hd_map)
qed

lemma last_middles: "last (middles k) = replicate k 122"
proof (induction k)
  case 0
  then show ?case by (simp add: middles_0)
next
  case (Suc k)
  have "middles (Suc k) =
          concat (map (\<lambda>letter. map ((#) letter) (middles k)) (butlast ALPHABET)) @
          map ((#) 122) (middles k)"
    unfolding middles_Suc by (subst ALPHABET_last) simp
  then show ?case
    using Suc middles_nonempty [of k] by (simp add: last_map)
qed

lemma gl_example:
  "\<exists>ds. domainGenerator 3 4 (js ''gl'') [] = Some ds \<and> length ds = 676
        \<and> hd ds = js ''glaa'' \<and> last ds = js ''glzz''"
proof -
  have gen: "domainGenerator 3 4 (js ''gl'') [] =
          Some (map (\<lambda>middle. js ''gl'' @ middle @ []) (middles 2))"
    by (intro domainGenerator_enough) (simp_all add: js_def)
  have "length (middles 2) = 676"
    by (simp add: length_middles)
  moreover have "hd (middles 2) = js ''aa''" "last (middles 2) = js ''zz''"
    by (simp_all add: hd_middles last_middles js_def numeral_2_eq_2)
  ultimately show ?thesis
    using gen middles_nonempty [of 2] by (simp add: hd_map last_map js_def)
qed

text \<open>
  C1. For a length and affixes with \<open>len(prefix) + len(suffix) \<le> domainLength\<close> (the
  configuration invariant makes the inequality strict), and a recursion depth above
  \<open>fillCount = domainLength - len(prefix) - len(suffix)\<close>, the generator yields the
  candidates \<open>prefix + middle + suffix\<close> where the middles are \<open>26^fillCount\<close> strings,
  exactly the strings of \<open>fillCount\<close> letters \<open>a\<close>..\<open>z\<close>, in strictly increasing
  lexicographic order; for \<open>fillCount = 0\<close> the only candidate is \<open>prefix + suffix\<close>. For
  length 4, prefix \<open>gl\<close> and an empty suffix there are 676 candidates, the first
  \<open>glaa\<close> and the last \<open>glzz\<close>.
\<close>

theorem domainGenerator_candidates:
  assumes "int (length pre) + int (length suf) \<le> len"
    and "nat (len - int (length pre) - int (length suf)) < depth"
  shows "\<exists>ms. domainGenerator depth len pre suf =
                 Some (map (\<lambda>middle. pre @ middle @ suf) ms)
              \<and> length ms = 26 ^ nat (len - int (length pre) - int (length suf))
              \<and> set ms = {m. int (length m) = len - int (length pre) - int (length suf)
                              \<and> set m \<subseteq> set ALPHABET}
              \<and> sorted_wrt (<) ms
              \<and> (len - int (length pre) - int (length suf) = 0 \<longrightarrow>
                   domainGenerator depth len pre suf = Some [pre @ suf])
              \<and> (\<exists>ds. domainGenerator 3 4 (js ''gl'') [] = Some ds \<and> length ds = 676
                      \<and> hd ds = js ''glaa'' \<and> last ds = js ''glzz'')"
proof -
  define k where "k = nat (len - int (length pre) - int (length suf))"
  have k: "int (length pre) + int (length suf) + int k = len"
    using assms(1) by (simp add: k_def)
  have gen: "domainGenerator depth len pre suf =
               Some (map (\<lambda>middle. pre @ middle @ suf) (middles k))"
    using k assms(2) by (intro domainGenerator_enough) (simp_all add: k_def)
  have set_ms: "set (middles k) =
      {m. int (length m) = len - int (length pre) - int (length suf)
          \<and> set m \<subseteq> set ALPHABET}"
    using k by (auto simp: set_middles)
  have zero: "len - int (length pre) - int (length suf) = 0 \<longrightarrow>
                domainGenerator depth len pre suf = Some [pre @ suf]"
    by (simp add: domainGenerator_def)
  note ex = gl_example
  show ?thesis
    using gen set_ms zero ex length_middles [of k] sorted_middles [of k]
    unfolding k_def by blast
qed

theorem domainGenerator_candidates_witness:
  "\<exists>ms. domainGenerator 2 3 (js ''a'') (js ''b'') =
           Some (map (\<lambda>middle. js ''a'' @ middle @ js ''b'') ms)
        \<and> length ms = 26 \<and> sorted_wrt (<) ms"
  using domainGenerator_candidates [of "js ''a''" "js ''b''" 3 2]
  by (auto simp add: js_def)


section \<open>The classifiers\<close>

lemma wordchar_not_space: "isWordChar c \<Longrightarrow> \<not> isWhiteSpace c"
  unfolding isWordChar_def isWhiteSpace_def by (auto simp: word_le_nat_alt)

lemma Canonicalize_eq_iff:
  "Canonicalize a = Canonicalize b \<longleftrightarrow> toLowerCase [a] = toLowerCase [b]"
proof -
  have up: "unat (c - 32) = unat c - 32" if "97 \<le> c" for c :: "16 word"
    using that by (simp add: unat_sub word_le_nat_alt)
  have lo: "unat (c + 32) = unat c + 32" if "c \<le> 90" for c :: "16 word"
    using that by (simp add: unat_word_ariths word_le_nat_alt)
  have "Canonicalize a = Canonicalize b \<longleftrightarrow> unat (Canonicalize a) = unat (Canonicalize b)"
    by (simp add: word_unat_eq_iff)
  also have "\<dots> \<longleftrightarrow> unat (if 65 \<le> a \<and> a \<le> 90 then a + 32 else a) =
                     unat (if 65 \<le> b \<and> b \<le> 90 then b + 32 else b)"
    unfolding Canonicalize_def
    by (auto simp: up lo word_le_nat_alt)
  finally show ?thesis
    by (simp add: toLowerCase_def word_unat_eq_iff)
qed

lemma toLowerCase_Cons: "toLowerCase (c # cs) = toLowerCase [c] @ toLowerCase cs"
  by (simp add: toLowerCase_def)

lemma map_Canonicalize_eq_iff:
  "map Canonicalize a = map Canonicalize b \<longleftrightarrow> toLowerCase a = toLowerCase b"
proof (induction a arbitrary: b)
  case Nil
  then show ?case by (auto simp: toLowerCase_def)
next
  case (Cons x xs)
  show ?case
  proof (cases b)
    case Nil
    then show ?thesis by (simp add: toLowerCase_def)
  next
    case (Cons y ys)
    have "toLowerCase (x # xs) = toLowerCase (y # ys) \<longleftrightarrow>
            toLowerCase [x] = toLowerCase [y] \<and> toLowerCase xs = toLowerCase ys"
      by (simp add: toLowerCase_def)
    then show ?thesis
      using Cons.IH [of ys] Cons by (simp add: Canonicalize_eq_iff)
  qed
qed

lemma match_literal_i_iff:
  "match_literal_i p s = Some r \<longleftrightarrow> (\<exists>m. s = m @ r \<and> toLowerCase m = toLowerCase p)"
proof (induction p s rule: match_literal_i.induct)
  case (1 s)
  then show ?case by (auto simp: toLowerCase_def)
next
  case (2 p ps)
  then show ?case by (auto simp: toLowerCase_def)
next
  case (3 p ps c cs)
  show ?case
  proof (cases "Canonicalize p = Canonicalize c")
    case True
    then have pc: "toLowerCase [c] = toLowerCase [p]"
      by (simp add: Canonicalize_eq_iff)
    have "(\<exists>m. c # cs = m @ r \<and> toLowerCase m = toLowerCase (p # ps)) \<longleftrightarrow>
          (\<exists>m'. cs = m' @ r \<and> toLowerCase m' = toLowerCase ps)"
    proof
      assume "\<exists>m. c # cs = m @ r \<and> toLowerCase m = toLowerCase (p # ps)"
      then obtain m where m: "c # cs = m @ r" "toLowerCase m = toLowerCase (p # ps)"
        by blast
      then obtain m' where "m = c # m'"
        by (cases m) (auto simp: toLowerCase_def)
      with m show "\<exists>m'. cs = m' @ r \<and> toLowerCase m' = toLowerCase ps"
        by (auto simp: toLowerCase_def)
    next
      assume "\<exists>m'. cs = m' @ r \<and> toLowerCase m' = toLowerCase ps"
      then obtain m' where m': "cs = m' @ r" "toLowerCase m' = toLowerCase ps"
        by blast
      have "c # cs = (c # m') @ r \<and> toLowerCase (c # m') = toLowerCase (p # ps)"
        using m' pc by (simp add: toLowerCase_def)
      then show "\<exists>m. c # cs = m @ r \<and> toLowerCase m = toLowerCase (p # ps)"
        by blast
    qed
    with 3 True show ?thesis by simp
  next
    case False
    then have pc: "toLowerCase [c] \<noteq> toLowerCase [p]"
      by (simp add: Canonicalize_eq_iff)
    have "\<not> (\<exists>m. c # cs = m @ r \<and> toLowerCase m = toLowerCase (p # ps))"
    proof
      assume "\<exists>m. c # cs = m @ r \<and> toLowerCase m = toLowerCase (p # ps)"
      then obtain m where m: "c # cs = m @ r" "toLowerCase m = toLowerCase (p # ps)"
        by blast
      then obtain m' where "m = c # m'"
        by (cases m) (auto simp: toLowerCase_def)
      with m pc show False by (simp add: toLowerCase_def)
    qed
    with False show ?thesis by simp
  qed
qed

lemma regex_search_Some_iff:
  "regex_search m out = Some v \<longleftrightarrow>
     (\<exists>i\<le>length out. m (drop i out) = Some v \<and> (\<forall>j<i. m (drop j out) = None))"
proof (induction out)
  case Nil
  then show ?case by simp
next
  case (Cons c cs)
  show ?case
  proof (cases "m (c # cs)")
    case (Some r)
    have "(\<exists>i\<le>length (c # cs). m (drop i (c # cs)) = Some v
             \<and> (\<forall>j<i. m (drop j (c # cs)) = None)) \<longleftrightarrow> r = v"
    proof
      assume "\<exists>i\<le>length (c # cs). m (drop i (c # cs)) = Some v
                \<and> (\<forall>j<i. m (drop j (c # cs)) = None)"
      then obtain i where i: "m (drop i (c # cs)) = Some v" "\<forall>j<i. m (drop j (c # cs)) = None"
        by blast
      have "i = 0"
      proof (rule ccontr)
        assume "i \<noteq> 0"
        then have "m (drop 0 (c # cs)) = None" using i(2) by blast
        with Some show False by simp
      qed
      with i Some show "r = v" by simp
    next
      assume "r = v"
      with Some have "m (drop 0 (c # cs)) = Some v \<and> (\<forall>j<0. m (drop j (c # cs)) = None)"
        by simp
      then show "\<exists>i\<le>length (c # cs). m (drop i (c # cs)) = Some v
                   \<and> (\<forall>j<i. m (drop j (c # cs)) = None)"
        by blast
    qed
    with Some show ?thesis by simp
  next
    case None
    have "(\<exists>i\<le>length (c # cs). m (drop i (c # cs)) = Some v
             \<and> (\<forall>j<i. m (drop j (c # cs)) = None)) \<longleftrightarrow>
          (\<exists>i\<le>length cs. m (drop i cs) = Some v \<and> (\<forall>j<i. m (drop j cs) = None))"
      (is "?L \<longleftrightarrow> ?R")
    proof
      assume ?L
      then obtain i where i: "i \<le> length (c # cs)" "m (drop i (c # cs)) = Some v"
        "\<forall>j<i. m (drop j (c # cs)) = None"
        by blast
      with None obtain i' where i': "i = Suc i'"
        by (cases i) auto
      have "\<forall>j<i'. m (drop j cs) = None"
      proof (intro allI impI)
        fix j assume "j < i'"
        then have "Suc j < i" using i' by simp
        with i(3) have "m (drop (Suc j) (c # cs)) = None" by blast
        then show "m (drop j cs) = None" by simp
      qed
      with i i' show ?R by auto
    next
      assume ?R
      then obtain i where i: "i \<le> length cs" "m (drop i cs) = Some v"
        "\<forall>j<i. m (drop j cs) = None"
        by blast
      have "\<forall>j<Suc i. m (drop j (c # cs)) = None"
      proof (intro allI impI)
        fix j assume "j < Suc i"
        then show "m (drop j (c # cs)) = None"
          using None i(3) by (cases j) auto
      qed
      moreover have "Suc i \<le> length (c # cs)" "m (drop (Suc i) (c # cs)) = Some v"
        using i by simp_all
      ultimately show ?L by blast
    qed
    with None Cons.IH show ?thesis by simp
  qed
qed

lemma regex_search_None_iff:
  "regex_search m out = None \<longleftrightarrow> (\<forall>i\<le>length out. m (drop i out) = None)"
proof (induction out)
  case Nil
  then show ?case by simp
next
  case (Cons c cs)
  have "(\<forall>i\<le>length (c # cs). m (drop i (c # cs)) = None) \<longleftrightarrow>
        m (c # cs) = None \<and> (\<forall>i\<le>length cs. m (drop i cs) = None)"
    (is "?L \<longleftrightarrow> ?R")
  proof
    assume l: ?L
    then have "m (drop 0 (c # cs)) = None" by blast
    moreover have "m (drop i cs) = None" if "i \<le> length cs" for i
    proof -
      from that have "Suc i \<le> length (c # cs)" by simp
      with l have "m (drop (Suc i) (c # cs)) = None" by blast
      then show ?thesis by simp
    qed
    ultimately show ?R by simp
  next
    assume r: ?R
    show ?L
    proof (intro allI impI)
      fix i assume "i \<le> length (c # cs)"
      then show "m (drop i (c # cs)) = None"
        using r by (cases i) auto
    qed
  qed
  with Cons.IH show ?case by (auto split: option.splits)
qed


lemma toLowerCase_Status: "toLowerCase (js ''Status:'') = js ''status:''"
  by (simp add: toLowerCase_def js_def)

lemma match_Status_iff: "match_Status s = Some v \<longleftrightarrow> status_field s v"
proof
  assume ms: "match_Status s = Some v"
  then obtain r where r: "match_literal_i (js ''Status:'') s = Some r"
    by (auto simp: match_Status_def split: option.splits)
  with ms have v: "v = takeWhile isWordChar (dropWhile isWhiteSpace r)" "v \<noteq> []"
    by (auto simp: match_Status_def Let_def split: if_splits)
  from r obtain key where key: "s = key @ r" "toLowerCase key = js ''status:''"
    by (auto simp: match_literal_i_iff toLowerCase_Status)
  define ws where "ws = takeWhile isWhiteSpace r"
  define rest where "rest = dropWhile isWordChar (dropWhile isWhiteSpace r)"
  have "r = ws @ v @ rest"
    by (simp add: ws_def rest_def v(1))
  moreover have "\<forall>c\<in>set ws. isWhiteSpace c"
    by (auto simp: ws_def dest: set_takeWhileD)
  moreover have "\<forall>c\<in>set v. isWordChar c"
    by (auto simp: v(1) dest: set_takeWhileD)
  moreover have "rest = [] \<or> \<not> isWordChar (hd rest)"
    unfolding rest_def by (metis hd_dropWhile)
  ultimately show "status_field s v"
    unfolding status_field_def using key v(2) by blast
next
  assume "status_field s v"
  then obtain key ws rest where d: "s = key @ ws @ v @ rest" "toLowerCase key = js ''status:''"
    "\<forall>c\<in>set ws. isWhiteSpace c" "v \<noteq> []" "\<forall>c\<in>set v. isWordChar c"
    "rest = [] \<or> \<not> isWordChar (hd rest)"
    unfolding status_field_def by blast
  have lit: "match_literal_i (js ''Status:'') s = Some (ws @ v @ rest)"
    unfolding match_literal_i_iff toLowerCase_Status using d(1,2) by blast
  obtain a v' where v: "v = a # v'"
    using d(4) by (cases v) auto
  then have "\<not> isWhiteSpace a"
    using d(5) by (simp add: wordchar_not_space)
  then have dw: "dropWhile isWhiteSpace (ws @ v @ rest) = v @ rest"
    using d(3) v by (simp add: dropWhile_append2)
  have "takeWhile isWordChar rest = []"
    using d(6) by (cases rest) auto
  then have tw: "takeWhile isWordChar (v @ rest) = v"
    using d(5) by (simp add: takeWhile_append2)
  show "match_Status s = Some v"
    using lit dw tw d(4) by (simp add: match_Status_def)
qed

lemma match_Status_None_iff: "match_Status s = None \<longleftrightarrow> (\<forall>w. \<not> status_field s w)"
  using match_Status_iff [of s] by (cases "match_Status s") auto

lemma first_status_iff:
  "regex_search match_Status out = Some v \<longleftrightarrow> first_status_field out v"
  by (simp add: regex_search_Some_iff first_status_field_def match_Status_iff
      match_Status_None_iff)

lemma no_status_iff:
  "regex_search match_Status out = None \<longleftrightarrow> (\<forall>v. \<not> first_status_field out v)"
  using first_status_iff [of out] by (cases "regex_search match_Status out") auto

lemma contains_iff:
  "(\<exists>i\<le>length out. \<exists>r. match_literal_i p (drop i out) = Some r) \<longleftrightarrow>
   (\<exists>pre mid post. out = pre @ mid @ post \<and> toLowerCase mid = toLowerCase p)"
proof
  assume "\<exists>i\<le>length out. \<exists>r. match_literal_i p (drop i out) = Some r"
  then obtain i r where "match_literal_i p (drop i out) = Some r" by blast
  then obtain m where "drop i out = m @ r" "toLowerCase m = toLowerCase p"
    by (auto simp: match_literal_i_iff)
  then have "out = take i out @ m @ r \<and> toLowerCase m = toLowerCase p"
    by (metis append_take_drop_id)
  then show "\<exists>pre mid post. out = pre @ mid @ post \<and> toLowerCase mid = toLowerCase p"
    by blast
next
  assume "\<exists>pre mid post. out = pre @ mid @ post \<and> toLowerCase mid = toLowerCase p"
  then obtain pre mid post where d: "out = pre @ mid @ post" "toLowerCase mid = toLowerCase p"
    by blast
  then have "match_literal_i p (drop (length pre) out) = Some post"
    by (auto simp: match_literal_i_iff)
  moreover have "length pre \<le> length out"
    using d(1) by simp
  ultimately show "\<exists>i\<le>length out. \<exists>r. match_literal_i p (drop i out) = Some r"
    by blast
qed

lemma isAvailable_verisign_iff:
  "isAvailable_verisign out \<longleftrightarrow>
     (\<exists>pre mid post. out = pre @ mid @ post \<and> toLowerCase mid = js ''no match'')"
proof -
  have "toLowerCase (js ''no match'') = js ''no match''"
    by (simp add: toLowerCase_def js_def)
  moreover have "isAvailable_verisign out \<longleftrightarrow>
      (\<exists>i\<le>length out. \<exists>r. match_literal_i (js ''no match'') (drop i out) = Some r)"
    unfolding isAvailable_verisign_def regex_search_None_iff by auto
  ultimately show ?thesis
    by (simp add: contains_iff)
qed

lemmas eval_defs = isAvailable_denic_def isAvailable_eu_def isAvailable_verisign_def
  match_Status_def js_def Canonicalize_def isWhiteSpace_def isWordChar_def toLowerCase_def

text \<open>
  C3 (as amended). The verdict of the \<open>de\<close> and \<open>eu\<close> classifiers is decided by the
  first \<open>Status:\<close> field of the text: when its value is \<open>v\<close>, the \<open>de\<close> classifier
  returns true exactly when \<open>v\<close> is \<open>free\<close> in any letter case (so it is false when
  \<open>v\<close> is \<open>connect\<close>), and the \<open>eu\<close> classifier exactly when \<open>v\<close> is \<open>available\<close>
  in any letter case; when the text has no \<open>Status:\<close> field both return false. The
  \<open>com\<close>/\<open>net\<close> classifier returns true exactly when the text contains \<open>no match\<close> in
  any letter case. The classifiers are total functions to a truth value: none of them
  raises an error.
\<close>

theorem classifiers_by_first_Status_field:
  "(first_status_field out v \<longrightarrow>
      (isAvailable_denic out \<longleftrightarrow> toLowerCase v = js ''free'')
      \<and> (isAvailable_eu out \<longleftrightarrow> toLowerCase v = js ''available''))
   \<and> ((\<forall>w. \<not> first_status_field out w) \<longrightarrow>
         \<not> isAvailable_denic out \<and> \<not> isAvailable_eu out)
   \<and> (isAvailable_verisign out \<longleftrightarrow>
         (\<exists>pre mid post. out = pre @ mid @ post \<and> toLowerCase mid = js ''no match''))
   \<and> getWhoisProvider (js ''de'') =
         Inr \<lparr>host = js ''whois.denic.de'', isAvailable = isAvailable_denic\<rparr>
   \<and> getWhoisProvider (js ''net'') =
         Inr \<lparr>host = js ''whois.verisign-grs.com'', isAvailable = isAvailable_verisign\<rparr>
   \<and> getWhoisProvider (js ''com'') =
         Inr \<lparr>host = js ''whois.verisign-grs.com'', isAvailable = isAvailable_verisign\<rparr>
   \<and> getWhoisProvider (js ''eu'') =
         Inr \<lparr>host = js ''whois.eu'', isAvailable = isAvailable_eu\<rparr>"
proof -
  have a: "first_status_field out v \<longrightarrow>
      (isAvailable_denic out \<longleftrightarrow> toLowerCase v = js ''free'')
      \<and> (isAvailable_eu out \<longleftrightarrow> toLowerCase v = js ''available'')"
    by (simp add: first_status_iff [symmetric] isAvailable_denic_def isAvailable_eu_def)
  have b: "(\<forall>w. \<not> first_status_field out w) \<longrightarrow>
         \<not> isAvailable_denic out \<and> \<not> isAvailable_eu out"
    by (simp add: no_status_iff [symmetric] isAvailable_denic_def isAvailable_eu_def)
  have c: "getWhoisProvider (js ''de'') =
         Inr \<lparr>host = js ''whois.denic.de'', isAvailable = isAvailable_denic\<rparr>"
    "getWhoisProvider (js ''net'') =
         Inr \<lparr>host = js ''whois.verisign-grs.com'', isAvailable = isAvailable_verisign\<rparr>"
    "getWhoisProvider (js ''com'') =
         Inr \<lparr>host = js ''whois.verisign-grs.com'', isAvailable = isAvailable_verisign\<rparr>"
    "getWhoisProvider (js ''eu'') =
         Inr \<lparr>host = js ''whois.eu'', isAvailable = isAvailable_eu\<rparr>"
    by (simp_all add: getWhoisProvider_def js_def)
  show ?thesis
    using a b c isAvailable_verisign_iff [of out] by blast
qed

theorem classifiers_by_first_Status_field_witness:
  "first_status_field (js ''Domain: ab.de'' @ [10] @ js ''Status: free'' @ [10]) (js ''free'')
   \<and> isAvailable_denic (js ''Domain: ab.de'' @ [10] @ js ''Status: free'' @ [10])
   \<and> \<not> isAvailable_eu (js ''Domain: ab.de'' @ [10] @ js ''Status: free'' @ [10])"
proof -
  have h: "first_status_field (js ''Domain: ab.de'' @ [10] @ js ''Status: free'' @ [10])
             (js ''free'')"
    unfolding first_status_iff [symmetric] by (simp add: eval_defs)
  show ?thesis
    using h classifiers_by_first_Status_field
      [of "js ''Domain: ab.de'' @ [10] @ js ''Status: free'' @ [10]" "js ''free''"]
    by (simp add: toLowerCase_def js_def)
qed

text \<open>
  C3 (as stated) fails: a text can contain \<open>Status: free\<close> and be classified as not
  available by the \<open>de\<close> classifier, contain \<open>Status: connect\<close> and be classified as
  available, and contain a \<open>Status:\<close> field of value \<open>available\<close> and be classified as
  not available by the \<open>eu\<close> classifier, because an earlier \<open>Status:\<close> field decides.
\<close>

theorem classifiers_contains_counterexample:
  "toLowerCase (js ''Status: free'') = js ''status: free''
   \<and> \<not> isAvailable_denic (js ''Status: connect'' @ [10] @ js ''Status: free'')
   \<and> isAvailable_denic (js ''Status: free'' @ [10] @ js ''Status: connect'')
   \<and> \<not> isAvailable_eu (js ''Status: x'' @ [10] @ js ''Status: available'')"
  by (simp add: eval_defs)


lemma length_toLowerCase: "length (toLowerCase s) = length s"
  by (simp add: toLowerCase_def)

lemma status_field_take7:
  assumes "status_field s w"
  shows "toLowerCase (take 7 s) = js ''status:''"
proof -
  from assms obtain key r where d: "s = key @ r" "toLowerCase key = js ''status:''"
    unfolding status_field_def by blast
  have "length key = 7"
    using length_toLowerCase [of key] d(2) by (simp add: js_def)
  with d show ?thesis by simp
qed

lemma status_field_after:
  assumes "status_field s w"
  shows "dropWhile isWhiteSpace (drop 7 s) \<noteq> []
       \<and> isWordChar (hd (dropWhile isWhiteSpace (drop 7 s)))"
proof -
  from assms obtain key ws rest where d: "s = key @ ws @ w @ rest"
    "toLowerCase key = js ''status:''" "\<forall>c\<in>set ws. isWhiteSpace c" "w \<noteq> []"
    "\<forall>c\<in>set w. isWordChar c"
    unfolding status_field_def by blast
  have "length key = 7"
    using length_toLowerCase [of key] d(2) by (simp add: js_def)
  then have dr: "drop 7 s = ws @ w @ rest"
    using d(1) by simp
  obtain a w' where w: "w = a # w'"
    using d(4) by (cases w) auto
  then have a: "isWordChar a" "\<not> isWhiteSpace a"
    using d(5) by (simp_all add: wordchar_not_space)
  then have "dropWhile isWhiteSpace (ws @ w @ rest) = w @ rest"
    using d(3) w by (simp add: dropWhile_append2)
  then show ?thesis
    using dr w a(1) by simp
qed

text \<open>
  C9 (as amended). The \<open>de\<close> and \<open>eu\<close> classifiers consult only the first occurrence
  of \<open>Status:\<close> (in any letter case) that is followed, after optional white space, by a
  word character. When that occurrence is followed by the value \<open>v\<close>, a whole word, the
  \<open>de\<close> classifier returns false if \<open>v\<close> is not \<open>free\<close> and the \<open>eu\<close> classifier
  returns false if \<open>v\<close> is not \<open>available\<close> (in any letter case), whatever follows in
  the text, a later \<open>Status: free\<close> or \<open>Status: available\<close> field included. Earlier
  occurrences of \<open>Status:\<close> that no word follows are passed over.
\<close>

theorem first_valued_Status_field_decides:
  assumes "out = pre @ key @ ws @ v @ rest"
    and "toLowerCase key = js ''status:''"
    and "\<forall>j<length pre. toLowerCase (take 7 (drop j out)) = js ''status:'' \<longrightarrow>
           dropWhile isWhiteSpace (drop (j + 7) out) = []
           \<or> \<not> isWordChar (hd (dropWhile isWhiteSpace (drop (j + 7) out)))"
    and "\<forall>c\<in>set ws. isWhiteSpace c"
    and "v \<noteq> []" and "\<forall>c\<in>set v. isWordChar c"
    and "rest = [] \<or> \<not> isWordChar (hd rest)"
  shows "(toLowerCase v \<noteq> js ''free'' \<longrightarrow> \<not> isAvailable_denic out)
       \<and> (toLowerCase v \<noteq> js ''available'' \<longrightarrow> \<not> isAvailable_eu out)"
proof -
  have here: "status_field (drop (length pre) out) v"
    unfolding status_field_def using assms by auto
  have before: "\<not> status_field (drop j out) w" if "j < length pre" for j w
  proof
    assume sf: "status_field (drop j out) w"
    from status_field_take7 [OF sf] assms(3) that
    have "dropWhile isWhiteSpace (drop (j + 7) out) = []
           \<or> \<not> isWordChar (hd (dropWhile isWhiteSpace (drop (j + 7) out)))"
      by blast
    moreover have "drop (j + 7) out = drop 7 (drop j out)"
      by (simp add: add.commute)
    ultimately show False
      using status_field_after [OF sf] by simp
  qed
  have "length pre \<le> length out"
    using assms(1) by simp
  with here before have "first_status_field out v"
    unfolding first_status_field_def by blast
  then have "regex_search match_Status out = Some v"
    by (simp add: first_status_iff)
  then show ?thesis
    by (simp add: isAvailable_denic_def isAvailable_eu_def)
qed

theorem first_valued_Status_field_decides_witness:
  "\<not> isAvailable_denic
       (js ''Status: -'' @ [10] @ js ''Status: connect'' @ [10] @ js ''Status: free'')
   \<and> \<not> isAvailable_eu
       (js ''Status: -'' @ [10] @ js ''Status: connect'' @ [10] @ js ''Status: free'')"
  using first_valued_Status_field_decides
    [of "js ''Status: -'' @ [10] @ js ''Status: connect'' @ [10] @ js ''Status: free''"
        "js ''Status: -'' @ [10]" "js ''Status:''" "js '' ''" "js ''connect''"
        "[10] @ js ''Status: free''"]
  by (simp add: js_def toLowerCase_def isWhiteSpace_def isWordChar_def All_less_Suc)

text \<open>
  C9 (as stated) fails: the first occurrence of \<open>Status:\<close> can have a value other than
  \<open>free\<close> (here \<open>-\<close>) and the \<open>de\<close> classifier still return true, because of a later
  \<open>Status: free\<close>; likewise for the \<open>eu\<close> classifier and \<open>available\<close>.
\<close>

theorem first_Status_occurrence_counterexample:
  "isAvailable_denic (js ''Status: -'' @ [10] @ js ''Status: free'')
   \<and> isAvailable_eu (js ''Status: -'' @ [10] @ js ''Status: available'')"
  by (simp add: eval_defs)


lemma scan_fst: "map_option fst (scan m i s) = regex_search (\<lambda>x. map_option fst (m x)) s"
  by (induction s arbitrary: i) (auto split: option.splits)

lemma Status_matcher_fst: "map_option fst (Status_matcher s) = match_Status s"
  by (simp add: Status_matcher_def match_Status_def Let_def split: option.splits)

lemma literal_matcher_None: "literal_matcher p s = None \<longleftrightarrow> match_literal_i p s = None"
  by (simp add: literal_matcher_def split: option.splits)

lemma scan_None: "scan m i s = None \<longleftrightarrow> regex_search (\<lambda>x. map_option fst (m x)) s = None"
  using scan_fst [of m i s] by (metis map_option_is_None)

lemma regex_search_None_cong:
  "(\<And>x. m x = None \<longleftrightarrow> m' x = None) \<Longrightarrow>
     regex_search m s = None \<longleftrightarrow> regex_search m' s = None"
  by (simp add: regex_search_None_iff)

lemma exec_fresh:
  "exec_at (length h) S (h @ [\<lparr>re_matcher = m, re_global = False, re_sticky = False, lastIndex = 0\<rparr>]) =
     (scan m 0 S, h @ [\<lparr>re_matcher = m, re_global = False, re_sticky = False, lastIndex = 0\<rparr>])"
  by (simp add: exec_at_def RegExpBuiltinExec_def split: option.splits)

lemma isAvailable_denic_store_eq:
  "isAvailable_denic_store out h =
     (isAvailable_denic out,
      h @ [\<lparr>re_matcher = Status_matcher, re_global = False, re_sticky = False, lastIndex = 0\<rparr>])"
proof -
  have "regex_search match_Status out = map_option fst (scan Status_matcher 0 out)"
    by (simp add: scan_fst Status_matcher_fst)
  then show ?thesis
    by (auto simp: isAvailable_denic_store_def isAvailable_denic_def new_RegExp_def exec_fresh
        split: option.splits)
qed

lemma isAvailable_eu_store_eq:
  "isAvailable_eu_store out h =
     (isAvailable_eu out,
      h @ [\<lparr>re_matcher = Status_matcher, re_global = False, re_sticky = False, lastIndex = 0\<rparr>])"
proof -
  have "regex_search match_Status out = map_option fst (scan Status_matcher 0 out)"
    by (simp add: scan_fst Status_matcher_fst)
  then show ?thesis
    by (auto simp: isAvailable_eu_store_def isAvailable_eu_def new_RegExp_def exec_fresh
        split: option.splits)
qed

lemma isAvailable_verisign_store_eq:
  "isAvailable_verisign_store out h =
     (isAvailable_verisign out,
      h @ [\<lparr>re_matcher = literal_matcher (js ''no match''), re_global = False,
             re_sticky = False, lastIndex = 0\<rparr>])"
proof -
  have "scan (literal_matcher (js ''no match'')) 0 out = None \<longleftrightarrow>
          regex_search (match_literal_i (js ''no match'')) out = None"
    unfolding scan_None
    by (rule regex_search_None_cong) (simp add: literal_matcher_None)
  then have "(scan (literal_matcher (js ''no match'')) 0 out \<noteq> None) = isAvailable_verisign out"
    by (simp add: isAvailable_verisign_def)
  then show ?thesis
    by (simp add: isAvailable_verisign_store_def new_RegExp_def exec_fresh
        del: not_None_eq)
qed

lemma isAvailable_store_eq:
  assumes "getWhoisProvider_store tld = Inr p"
  shows "\<exists>q R. getWhoisProvider tld = Inr q \<and> host q = host_store p
           \<and> (\<forall>out h. isAvailable_store p out h = (isAvailable q out, h @ [R]))"
proof -
  consider "tld = js ''de''" | "tld \<noteq> js ''de''" "tld = js ''net'' \<or> tld = js ''com''"
    | "tld \<noteq> js ''de''" "tld \<noteq> js ''net''" "tld \<noteq> js ''com''" "tld = js ''eu''"
    using assms by (auto simp: getWhoisProvider_store_def split: if_splits)
  then show ?thesis
  proof cases
    case 1
    with assms have "p = \<lparr>host_store = js ''whois.denic.de'',
        isAvailable_store = isAvailable_denic_store\<rparr>"
      by (simp add: getWhoisProvider_store_def)
    with 1 show ?thesis
      by (simp add: getWhoisProvider_def isAvailable_denic_store_eq)
  next
    case 2
    with assms have "p = \<lparr>host_store = js ''whois.verisign-grs.com'',
        isAvailable_store = isAvailable_verisign_store\<rparr>"
      by (simp add: getWhoisProvider_store_def)
    with 2 show ?thesis
      by (simp add: getWhoisProvider_def isAvailable_verisign_store_eq)
  next
    case 3
    with assms have "p = \<lparr>host_store = js ''whois.eu'',
        isAvailable_store = isAvailable_eu_store\<rparr>"
      by (simp add: getWhoisProvider_store_def)
    with 3 show ?thesis
      by (simp add: getWhoisProvider_def isAvailable_eu_store_eq)
  qed
qed

text \<open>
  The store matters to \<open>RegExpBuiltinExec\<close>: the same search on one object with the
  \<open>g\<close> flag succeeds the first time and fails the second.
\<close>

lemma global_regexp_keeps_state:
  "fst (RegExpBuiltinExec
     \<lparr>re_matcher = literal_matcher (js ''no match''), re_global = True, re_sticky = False,
      lastIndex = 0\<rparr> (js ''no match'')) \<noteq> None
   \<and> fst (RegExpBuiltinExec
     (snd (RegExpBuiltinExec
        \<lparr>re_matcher = literal_matcher (js ''no match''), re_global = True, re_sticky = False,
         lastIndex = 0\<rparr> (js ''no match''))) (js ''no match'')) = None"
  by (simp add: RegExpBuiltinExec_def literal_matcher_def js_def Canonicalize_def)

text \<open>
  C8. For the provider of every supported top-level domain, the verdict of its classifier
  on a text is the same in every store of RegExp objects, so calling it twice on the same
  text, the second time in the store the first call left, gives the same verdict. A call
  leaves the objects that existed before it as they were, and the verdict is that of the
  classifier as a function of the text.
\<close>

theorem classify_keeps_no_state:
  assumes "getWhoisProvider_store tld = Inr p"
  shows "fst (isAvailable_store p out h) = fst (isAvailable_store p out h')
       \<and> fst (isAvailable_store p out (snd (isAvailable_store p out h))) =
           fst (isAvailable_store p out h)
       \<and> take (length h) (snd (isAvailable_store p out h)) = h
       \<and> (\<exists>q. getWhoisProvider tld = Inr q \<and> host q = host_store p
              \<and> isAvailable q out = fst (isAvailable_store p out h))"
proof -
  from isAvailable_store_eq [OF assms] obtain q R where q: "getWhoisProvider tld = Inr q"
    "host q = host_store p" "\<And>out h. isAvailable_store p out h = (isAvailable q out, h @ [R])"
    by blast
  show ?thesis
    using q(1,2) by (simp add: q(3))
qed

theorem classify_keeps_no_state_witness:
  "fst (isAvailable_verisign_store (js ''No match for ab.com'') []) =
     fst (isAvailable_verisign_store (js ''No match for ab.com'')
            [\<lparr>re_matcher = literal_matcher (js ''no match''), re_global = True,
              re_sticky = False, lastIndex = 5\<rparr>])
   \<and> fst (isAvailable_verisign_store (js ''No match for ab.com'') [])"
proof -
  have g: "getWhoisProvider_store (js ''com'') =
      Inr \<lparr>host_store = js ''whois.verisign-grs.com'',
           isAvailable_store = isAvailable_verisign_store\<rparr>"
    by (simp add: getWhoisProvider_store_def js_def)
  have e: "fst (isAvailable_verisign_store (js ''No match for ab.com'') [])"
    by (simp add: isAvailable_verisign_store_def new_RegExp_def exec_at_def
        RegExpBuiltinExec_def literal_matcher_def js_def Canonicalize_def)
  from classify_keeps_no_state [OF g, of "js ''No match for ab.com''" "[]"
      "[\<lparr>re_matcher = literal_matcher (js ''no match''), re_global = True,
              re_sticky = False, lastIndex = 5\<rparr>]"] e
  show ?thesis by simp
qed


section \<open>The lookup\<close>

text \<open>
  C4. A lookup ends in an error exactly when the process cannot be spawned, or closes
  with an exit code other than 0 and a non-empty error stream. In the second case the
  error carries the error stream (with the white space at its ends trimmed), in the first
  the error of the spawn. In every other case, an exit code other than 0 with an empty
  error stream and exit code 0 with a non-empty error stream included, the result is the
  verdict of the provider's classifier on the standard output, with that output.
\<close>

theorem whoisLookup_outcome:
  "(isl (whoisLookup spawn fqdn p) \<longleftrightarrow>
      (case spawn (js ''whois'') [js ''-h'', host p, fqdn] of
         SpawnFailed err \<Rightarrow> True
       | Closed code stdout stderr \<Rightarrow> code \<noteq> Some 0 \<and> stderr \<noteq> []))
   \<and> (spawn (js ''whois'') [js ''-h'', host p, fqdn] = SpawnFailed err \<longrightarrow>
        whoisLookup spawn fqdn p = Inl err)
   \<and> (spawn (js ''whois'') [js ''-h'', host p, fqdn] = Closed code stdout stderr \<longrightarrow>
        whoisLookup spawn fqdn p =
          (if code \<noteq> Some 0 \<and> stderr \<noteq> [] then Inl (Error (trim stderr))
           else Inr \<lparr>available = isAvailable p stdout, raw = stdout\<rparr>))"
  by (simp add: whoisLookup_def split: proc_result.splits)

theorem whoisLookup_outcome_witness:
  "whoisLookup (\<lambda>cmd args. Closed (Some 1) (js ''Status: free'') []) (js ''ab.de'')
       \<lparr>host = js ''whois.denic.de'', isAvailable = isAvailable_denic\<rparr> =
     Inr \<lparr>available = True, raw = js ''Status: free''\<rparr>
   \<and> whoisLookup (\<lambda>cmd args. Closed (Some 1) [] (js ''timeout'' @ [10])) (js ''ab.de'')
       \<lparr>host = js ''whois.denic.de'', isAvailable = isAvailable_denic\<rparr> =
     Inl (Error (js ''timeout''))"
  using whoisLookup_outcome
      [of "\<lambda>cmd args. Closed (Some 1) (js ''Status: free'') []" "js ''ab.de''"
          "\<lparr>host = js ''whois.denic.de'', isAvailable = isAvailable_denic\<rparr>"
          TypeError "Some 1" "js ''Status: free''" "[]"]
    whoisLookup_outcome
      [of "\<lambda>cmd args. Closed (Some 1) [] (js ''timeout'' @ [10])" "js ''ab.de''"
          "\<lparr>host = js ''whois.denic.de'', isAvailable = isAvailable_denic\<rparr>"
          TypeError "Some 1" "[]" "js ''timeout'' @ [10]"]
  by (simp add: eval_defs trim_def)

section \<open>The run loop\<close>

lemma run_step_fields:
  "checked (run_step iv tld p spawn d st) =
     checked st + (if isl (whoisLookup spawn (d @ js ''.'' @ tld) p) then 0 else 1)"
  "taken (run_step iv tld p spawn d st) =
     taken st + (if classified_taken (whoisLookup spawn (d @ js ''.'' @ tld) p) then 1 else 0)"
  "availableDomains (run_step iv tld p spawn d st) =
     availableDomains st @
       (if classified_available (whoisLookup spawn (d @ js ''.'' @ tld) p)
        then [d @ js ''.'' @ tld] else [])"
  by (simp_all add: run_step_def emit_def Let_def classified_available_def
      classified_taken_def split: sum.splits)

lemma run_loop_fields:
  "checked (run_loop iv tld p world k ds st) =
     checked st + length (filter (\<lambda>(i, d). \<not> isl (whoisLookup (world i) (d @ js ''.'' @ tld) p))
                            (enumerate k ds))
   \<and> taken (run_loop iv tld p world k ds st) =
     taken st + length (filter (\<lambda>(i, d). classified_taken (whoisLookup (world i) (d @ js ''.'' @ tld) p))
                          (enumerate k ds))
   \<and> availableDomains (run_loop iv tld p world k ds st) =
     availableDomains st @
       map (\<lambda>(i, d). d @ js ''.'' @ tld)
         (filter (\<lambda>(i, d). classified_available (whoisLookup (world i) (d @ js ''.'' @ tld) p))
            (enumerate k ds))"
proof (induction ds arbitrary: k st)
  case Nil
  then show ?case by simp
next
  case (Cons d ds)
  show ?case
    by (simp add: Cons.IH run_step_fields)
qed


lemma run_step_invariant:
  "checked st = taken st + length (availableDomains st) \<Longrightarrow>
   checked (run_step iv tld p spawn d st) =
     taken (run_step iv tld p spawn d st) + length (availableDomains (run_step iv tld p spawn d st))"
  by (simp add: run_step_def emit_def Let_def split: sum.splits)

lemma run_loop_invariant:
  "checked st = taken st + length (availableDomains st) \<Longrightarrow>
   checked (run_loop iv tld p world k ds st) =
     taken (run_loop iv tld p world k ds st)
       + length (availableDomains (run_loop iv tld p world k ds st))"
proof (induction ds arbitrary: k st)
  case Nil
  then show ?case by simp
next
  case (Cons d ds)
  show ?case
    unfolding run_loop.simps
    by (rule Cons.IH) (rule run_step_invariant [OF Cons.prems])
qed

lemma run_step_trace:
  "trace (run_step iv tld p spawn d st) = trace st @ step_events iv tld p spawn d (checked st)"
  by (simp add: run_step_def emit_def Let_def step_events_def split: sum.splits)

lemma run_loop_same_summary:
  assumes "checked st = checked st'" "taken st = taken st'"
    "availableDomains st = availableDomains st'"
  shows "checked (run_loop iv tld p world k ds st) = checked (run_loop iv tld p world k ds st')
       \<and> taken (run_loop iv tld p world k ds st) = taken (run_loop iv tld p world k ds st')
       \<and> availableDomains (run_loop iv tld p world k ds st) =
           availableDomains (run_loop iv tld p world k ds st')
       \<and> (\<exists>evs. trace (run_loop iv tld p world k ds st) = trace st @ evs
                \<and> trace (run_loop iv tld p world k ds st') = trace st' @ evs)"
  using assms
proof (induction ds arbitrary: k st st')
  case Nil
  then show ?case by simp
next
  case (Cons d ds)
  let ?s = "run_step iv tld p (world k) d st" and ?s' = "run_step iv tld p (world k) d st'"
  have eq: "checked ?s = checked ?s'" "taken ?s = taken ?s'"
    "availableDomains ?s = availableDomains ?s'"
    using Cons.prems by (simp_all add: run_step_fields)
  from Cons.IH [OF eq, of "Suc k"]
  obtain evs where evs:
    "checked (run_loop iv tld p world (Suc k) ds ?s) = checked (run_loop iv tld p world (Suc k) ds ?s')"
    "taken (run_loop iv tld p world (Suc k) ds ?s) = taken (run_loop iv tld p world (Suc k) ds ?s')"
    "availableDomains (run_loop iv tld p world (Suc k) ds ?s) =
       availableDomains (run_loop iv tld p world (Suc k) ds ?s')"
    "trace (run_loop iv tld p world (Suc k) ds ?s) = trace ?s @ evs"
    "trace (run_loop iv tld p world (Suc k) ds ?s') = trace ?s' @ evs"
    by blast
  have "trace (run_loop iv tld p world k (d # ds) st) =
          trace st @ (step_events iv tld p (world k) d (checked st) @ evs)"
    "trace (run_loop iv tld p world k (d # ds) st') =
          trace st' @ (step_events iv tld p (world k) d (checked st) @ evs)"
    using evs(4,5) Cons.prems(1) by (simp_all add: run_step_trace)
  then show ?case
    using evs(1-3) by auto
qed

lemma run_Completed:
  assumes "run B depth file world = Some (Completed final)"
  shows "\<exists>cfg p ds. readConfig B file = Inr cfg \<and> getWhoisProvider (topLevelDomain cfg) = Inr p
           \<and> domainGenerator depth (domainLength cfg) (prefix cfg) (suffix cfg) = Some ds
           \<and> final = run_loop (intervalMs cfg) (topLevelDomain cfg) p world 0 ds initial_state"
  using assms
  by (auto simp: run_def run_config_def split: sum.splits option.splits)

lemma readConfig_example:
  "readConfig B (Parsed \<lparr>p_length = JNumber (Fin 2), p_prefix = JString (js ''a''),
       p_suffix = JUndefined, p_intervalMs = JUndefined, p_topLevelDomain = JString (js ''DE'')\<rparr>) =
     Inr \<lparr>domainLength = 2, prefix = js ''a'', suffix = [], intervalMs = 500,
          topLevelDomain = js ''de''\<rparr>"
  by (simp add: readConfig_def validateAffix_def MIN_LENGTH_def MAX_LENGTH_def
      DEFAULT_INTERVAL_MS_def SUPPORTED_TLDS_def toLowerCase_def js_def)


lemma getWhoisProvider_de:
  "getWhoisProvider (js ''de'') =
     Inr \<lparr>host = js ''whois.denic.de'', isAvailable = isAvailable_denic\<rparr>"
  by (simp add: getWhoisProvider_def)

lemma run_example:
  "run B 2 (Parsed \<lparr>p_length = JNumber (Fin 2), p_prefix = JString (js ''a''),
       p_suffix = JUndefined, p_intervalMs = JUndefined, p_topLevelDomain = JString (js ''DE'')\<rparr>)
     world =
   Some (Completed (run_loop 500 (js ''de'')
     \<lparr>host = js ''whois.denic.de'', isAvailable = isAvailable_denic\<rparr> world 0
     (js ''aa'' # js ''ab'' # map (\<lambda>letter. [97, letter]) (drop 2 ALPHABET)) initial_state))"
proof -
  have "domainGenerator 2 2 (js ''a'') [] =
          Some (js ''aa'' # js ''ab'' # map (\<lambda>letter. [97, letter]) (drop 2 ALPHABET))"
    by (simp add: domainGenerator_def ALPHABET_def js_def numeral_2_eq_2)
  then show ?thesis
    by (simp only: run_def readConfig_example sum.case run_config_def config.select_convs
        getWhoisProvider_de option.case)
qed

lemma first_lookup_failed_trace:
  assumes "whoisLookup (world 0) (d1 @ js ''.'' @ tld) p = Inl err"
  shows "take 3 (trace (run_loop iv tld p world 0 (d1 # d2 # rest) initial_state)) =
           [Lookup (d1 @ js ''.'' @ tld), ErrorLine (d1 @ js ''.'' @ tld) err,
            Lookup (d2 @ js ''.'' @ tld)]"
proof -
  let ?s1 = "run_step iv tld p (world 0) d1 initial_state"
  let ?s2 = "run_step iv tld p (world (Suc 0)) d2 ?s1"
  have c1: "checked ?s1 = 0"
    using assms by (simp add: run_step_fields initial_state_def)
  have t1: "trace ?s1 = [Lookup (d1 @ js ''.'' @ tld), ErrorLine (d1 @ js ''.'' @ tld) err]"
    using assms by (simp add: run_step_trace step_events_def initial_state_def)
  have "\<exists>e. trace ?s2 = trace ?s1 @ [Lookup (d2 @ js ''.'' @ tld), e]"
    by (simp add: run_step_trace [of _ _ _ _ _ ?s1] step_events_def c1 split: sum.splits)
  then obtain e where t2: "trace ?s2 = trace ?s1 @ [Lookup (d2 @ js ''.'' @ tld), e]"
    by blast
  obtain evs where "trace (run_loop iv tld p world (Suc (Suc 0)) rest ?s2) = trace ?s2 @ evs"
    using run_loop_same_summary [of ?s2 ?s2] by blast
  then show ?thesis
    by (simp add: t1 t2)
qed

text \<open>
  C2. At the end of the loop, started in the initial state on any candidates and with any
  outcomes of the lookups, \<open>checked\<close> equals \<open>taken\<close> plus the length of the available
  list, and the available list is the list of the fully-qualified names of the candidates
  classified available, in the order of the candidates. So it is for the final state of
  every completed run, whose candidates are those of the generator.
\<close>

theorem summary_invariant:
  "checked (run_loop iv tld p world 0 ds initial_state) =
     taken (run_loop iv tld p world 0 ds initial_state)
       + length (availableDomains (run_loop iv tld p world 0 ds initial_state))
   \<and> availableDomains (run_loop iv tld p world 0 ds initial_state) =
       map (\<lambda>(i, d). d @ js ''.'' @ tld)
         (filter (\<lambda>(i, d). classified_available (whoisLookup (world i) (d @ js ''.'' @ tld) p))
            (enumerate 0 ds))
   \<and> (run B depth file world = Some (Completed final) \<longrightarrow>
        checked final = taken final + length (availableDomains final)
        \<and> (\<exists>cfg q cs. readConfig B file = Inr cfg
              \<and> getWhoisProvider (topLevelDomain cfg) = Inr q
              \<and> domainGenerator depth (domainLength cfg) (prefix cfg) (suffix cfg) = Some cs
              \<and> availableDomains final =
                  map (\<lambda>(i, d). d @ js ''.'' @ topLevelDomain cfg)
                    (filter (\<lambda>(i, d). classified_available
                        (whoisLookup (world i) (d @ js ''.'' @ topLevelDomain cfg) q))
                      (enumerate 0 cs))))"
proof -
  have init: "checked initial_state = taken initial_state + length (availableDomains initial_state)"
    by (simp add: initial_state_def)
  have inv: "checked (run_loop iv' tld' p' world 0 ds' initial_state) =
     taken (run_loop iv' tld' p' world 0 ds' initial_state)
       + length (availableDomains (run_loop iv' tld' p' world 0 ds' initial_state))"
    for iv' tld' p' ds'
    by (rule run_loop_invariant [OF init])
  have av: "availableDomains (run_loop iv' tld' p' world 0 ds' initial_state) =
       map (\<lambda>(i, d). d @ js ''.'' @ tld')
         (filter (\<lambda>(i, d). classified_available (whoisLookup (world i) (d @ js ''.'' @ tld') p'))
            (enumerate 0 ds'))"
    for iv' tld' p' ds'
    by (simp add: run_loop_fields initial_state_def)
  have "checked final = taken final + length (availableDomains final)
        \<and> (\<exists>cfg q cs. readConfig B file = Inr cfg
              \<and> getWhoisProvider (topLevelDomain cfg) = Inr q
              \<and> domainGenerator depth (domainLength cfg) (prefix cfg) (suffix cfg) = Some cs
              \<and> availableDomains final =
                  map (\<lambda>(i, d). d @ js ''.'' @ topLevelDomain cfg)
                    (filter (\<lambda>(i, d). classified_available
                        (whoisLookup (world i) (d @ js ''.'' @ topLevelDomain cfg) q))
                      (enumerate 0 cs)))"
    if "run B depth file world = Some (Completed final)"
  proof -
    from run_Completed [OF that] obtain cfg q cs where r: "readConfig B file = Inr cfg"
      "getWhoisProvider (topLevelDomain cfg) = Inr q"
      "domainGenerator depth (domainLength cfg) (prefix cfg) (suffix cfg) = Some cs"
      "final = run_loop (intervalMs cfg) (topLevelDomain cfg) q world 0 cs initial_state"
      by blast
    show ?thesis
      unfolding r(4) using inv av r(1-3) by blast
  qed
  then show ?thesis
    using inv av by blast
qed

theorem summary_invariant_witness:
  "\<exists>final. run \<lparr>StringToNumber = (\<lambda>s. NaN), NumberToString = (\<lambda>n. [])\<rparr> 2
       (Parsed \<lparr>p_length = JNumber (Fin 2), p_prefix = JString (js ''a''),
          p_suffix = JUndefined, p_intervalMs = JUndefined,
          p_topLevelDomain = JString (js ''DE'')\<rparr>)
       (\<lambda>k cmd args. if k = 0 then Closed (Some 1) [] (js ''timeout'')
                      else Closed (Some 0) (js ''Status: free'') []) = Some (Completed final)
     \<and> checked final = taken final + length (availableDomains final)"
  using summary_invariant
    [of _ _ _ "\<lambda>k cmd args. if k = 0 then Closed (Some 1) [] (js ''timeout'')
                      else Closed (Some 0) (js ''Status: free'') []" _
        "\<lparr>StringToNumber = (\<lambda>s. NaN), NumberToString = (\<lambda>n. [])\<rparr>" 2
        "Parsed \<lparr>p_length = JNumber (Fin 2), p_prefix = JString (js ''a''),
          p_suffix = JUndefined, p_intervalMs = JUndefined,
          p_topLevelDomain = JString (js ''DE'')\<rparr>"]
  by (simp only: run_example) blast

text \<open>
  C6. When the lookup of a candidate ends in an error, the iteration leaves \<open>checked\<close>,
  \<open>taken\<close> and the available list as they were, and the loop goes on with the next
  candidate. The final counts and the final list are those of the run that skips the
  candidate altogether, and the loop does the same for the candidates that follow
  (the same delays, lookups and lines) as in that run.
\<close>

theorem failed_lookup_leaves_no_mark:
  assumes "whoisLookup (world k) (d @ js ''.'' @ tld) p = Inl err"
  shows "checked (run_step iv tld p (world k) d st) = checked st
       \<and> taken (run_step iv tld p (world k) d st) = taken st
       \<and> availableDomains (run_step iv tld p (world k) d st) = availableDomains st
       \<and> run_loop iv tld p world k (d # rest) st =
           run_loop iv tld p world (Suc k) rest (run_step iv tld p (world k) d st)
       \<and> checked (run_loop iv tld p world k (d # rest) st) =
           checked (run_loop iv tld p world (Suc k) rest st)
       \<and> taken (run_loop iv tld p world k (d # rest) st) =
           taken (run_loop iv tld p world (Suc k) rest st)
       \<and> availableDomains (run_loop iv tld p world k (d # rest) st) =
           availableDomains (run_loop iv tld p world (Suc k) rest st)
       \<and> (\<exists>evs. trace (run_loop iv tld p world k (d # rest) st) =
                    trace (run_step iv tld p (world k) d st) @ evs
                \<and> trace (run_loop iv tld p world (Suc k) rest st) = trace st @ evs)"
proof -
  let ?s = "run_step iv tld p (world k) d st"
  have eq: "checked ?s = checked st" "taken ?s = taken st"
    "availableDomains ?s = availableDomains st"
    using assms
    by (simp_all add: run_step_fields classified_available_def classified_taken_def)
  from run_loop_same_summary [OF eq, of iv tld p world "Suc k" rest] eq
  show ?thesis by simp
qed


theorem failed_lookup_leaves_no_mark_witness:
  "checked (run_loop 500 (js ''de'')
       \<lparr>host = js ''whois.denic.de'', isAvailable = isAvailable_denic\<rparr>
       (\<lambda>k cmd args. if k = 0 then Closed (Some 1) [] (js ''timeout'')
                      else Closed (Some 0) (js ''Status: free'') [])
       0 [js ''aa'', js ''ab''] initial_state) = 1
   \<and> availableDomains (run_loop 500 (js ''de'')
       \<lparr>host = js ''whois.denic.de'', isAvailable = isAvailable_denic\<rparr>
       (\<lambda>k cmd args. if k = 0 then Closed (Some 1) [] (js ''timeout'')
                      else Closed (Some 0) (js ''Status: free'') [])
       0 [js ''aa'', js ''ab''] initial_state) = [js ''ab.de'']"
proof -
  let ?world = "\<lambda>k cmd args. if k = (0::nat) then Closed (Some 1) [] (js ''timeout'')
                      else Closed (Some 0) (js ''Status: free'') []"
  let ?p = "\<lparr>host = js ''whois.denic.de'', isAvailable = isAvailable_denic\<rparr>"
  have h: "whoisLookup (?world 0) (js ''aa'' @ js ''.'' @ js ''de'') ?p = Inl (Error (js ''timeout''))"
    by (simp add: whoisLookup_def trim_def js_def isWhiteSpace_def)
  have "checked (run_loop 500 (js ''de'') ?p ?world (Suc 0) [js ''ab''] initial_state) = 1
      \<and> availableDomains (run_loop 500 (js ''de'') ?p ?world (Suc 0) [js ''ab''] initial_state) =
          [js ''ab.de'']"
    by (simp add: run_step_def emit_def initial_state_def whoisLookup_def eval_defs Let_def)
  with failed_lookup_leaves_no_mark
    [of ?world 0 "js ''aa''" "js ''de''" ?p "Error (js ''timeout'')" 500 initial_state
        "[js ''ab'']", OF h]
  show ?thesis by simp
qed


text \<open>
  C5 (the code where the claim fails). In the run of length 2 with prefix \<open>a\<close>, whose
  first lookup (for \<open>aa.de\<close>) exits with status 1 and the error stream \<open>timeout\<close>, the
  loop prints the error and starts the lookup of the second candidate \<open>ab.de\<close> at once:
  no delay separates the two lookups, because \<open>checked\<close> is still 0.
\<close>

theorem no_delay_after_failed_first_lookup:
  "(case run \<lparr>StringToNumber = (\<lambda>s. NaN), NumberToString = (\<lambda>n. [])\<rparr> 2
       (Parsed \<lparr>p_length = JNumber (Fin 2), p_prefix = JString (js ''a''),
          p_suffix = JUndefined, p_intervalMs = JUndefined,
          p_topLevelDomain = JString (js ''DE'')\<rparr>)
       (\<lambda>k cmd args. if k = 0 then Closed (Some 1) [] (js ''timeout'')
                      else Closed (Some 0) (js ''Status: free'') []) of
      Some (Completed final) \<Rightarrow>
        take 3 (trace final) =
          [Lookup (js ''aa.de''), ErrorLine (js ''aa.de'') (Error (js ''timeout'')),
           Lookup (js ''ab.de'')]
    | _ \<Rightarrow> False)"
proof -
  let ?world = "\<lambda>k cmd args. if k = (0::nat) then Closed (Some 1) [] (js ''timeout'')
                      else Closed (Some 0) (js ''Status: free'') []"
  let ?p = "\<lparr>host = js ''whois.denic.de'', isAvailable = isAvailable_denic\<rparr>"
  have h: "whoisLookup (?world 0) (js ''aa'' @ js ''.'' @ js ''de'') ?p =
             Inl (Error (js ''timeout''))"
    by (simp add: whoisLookup_def trim_def js_def isWhiteSpace_def)
  from first_lookup_failed_trace
    [of ?world "js ''aa''" "js ''de''" ?p "Error (js ''timeout'')" 500 "js ''ab''", OF h]
  have "take 3 (trace (run_loop 500 (js ''de'') ?p ?world 0
          (js ''aa'' # js ''ab'' # map (\<lambda>letter. [97, letter]) (drop 2 ALPHABET)) initial_state)) =
        [Lookup (js ''aa.de''), ErrorLine (js ''aa.de'') (Error (js ''timeout'')),
         Lookup (js ''ab.de'')]"
    by (simp add: js_def)
  then show ?thesis
    by (simp only: run_example option.case run_result.case)
qed


section \<open>Reading the configuration\<close>

lemma readConfig_accepted:
  assumes "readConfig B file = Inr cfg"
  shows "int (length (prefix cfg)) + int (length (suffix cfg)) < domainLength cfg
       \<and> topLevelDomain cfg \<in> set SUPPORTED_TLDS"
  using assms
  by (auto simp: readConfig_def Let_def
      split: config_file.splits if_splits sum.splits jsvalue.splits jsnumber.splits)

lemma readConfig_affix_too_long:
  assumes "Number_conv B (p_length q) = Fin (of_int n)"
    and "nullish (p_prefix q) (JString []) = JString pre"
    and "nullish (p_suffix q) (JString []) = JString suf"
    and "int (length pre) + int (length suf) \<ge> n"
  shows "isl (readConfig B (Parsed q))"
  using assms
  by (auto simp: readConfig_def Let_def validateAffix_def split: sum.splits)

lemma getWhoisProvider_unsupported:
  "tld \<notin> set SUPPORTED_TLDS \<Longrightarrow>
     getWhoisProvider tld = Inl (Error (js ''Unsupported TLD: '' @ tld))"
  by (simp add: getWhoisProvider_def SUPPORTED_TLDS_def)

lemma getWhoisProvider_supported:
  "tld \<in> set SUPPORTED_TLDS \<Longrightarrow> \<not> isl (getWhoisProvider tld)"
  by (auto simp: getWhoisProvider_def SUPPORTED_TLDS_def)

lemma readConfig_topLevelDomain:
  assumes "readConfig B (Parsed (q\<lparr>p_topLevelDomain := JString (js ''de'')\<rparr>)) = Inr cfg"
    and "toLowerCase (String_conv B (nullish v (JString (js ''de'')))) \<in> set SUPPORTED_TLDS"
  shows "readConfig B (Parsed (q\<lparr>p_topLevelDomain := v\<rparr>)) =
           Inr (cfg\<lparr>topLevelDomain :=
                  toLowerCase (String_conv B (nullish v (JString (js ''de''))))\<rparr>)"
  using assms
  by (auto simp: readConfig_def Let_def
      split: if_splits sum.splits jsvalue.splits jsnumber.splits)

lemma readConfig_topLevelDomain_rejected:
  assumes "toLowerCase (String_conv B (nullish v (JString (js ''de'')))) \<notin> set SUPPORTED_TLDS"
  shows "isl (readConfig B (Parsed (q\<lparr>p_topLevelDomain := v\<rparr>)))"
  using assms
  by (auto simp: readConfig_def Let_def
      split: if_splits sum.splits jsvalue.splits jsnumber.splits)

text \<open>
  C7. When the prefix and the suffix of the configuration together are at least as long
  as its length, \<open>readConfig\<close> raises an error and the run ends with that configuration
  error, for every bound on the generator and every environment: the candidates are not
  generated and nothing is looked up. Every configuration that \<open>readConfig\<close> accepts
  has \<open>len(prefix) + len(suffix) < domainLength\<close> and a supported top-level domain, and
  every error of \<open>readConfig\<close> ends the run, among them the one for a top-level domain
  whose lower-case form is not supported. Provider selection raises an error for
  every identifier outside \<open>de\<close>, \<open>net\<close>, \<open>eu\<close>, \<open>com\<close> (and for no other), and a
  run that reaches it with such an identifier ends there, before the loop.
\<close>

theorem invalid_configuration_is_fatal:
  "(Number_conv B (p_length q) = Fin (of_int n)
      \<and> nullish (p_prefix q) (JString []) = JString pre
      \<and> nullish (p_suffix q) (JString []) = JString suf
      \<and> int (length pre) + int (length suf) \<ge> n \<longrightarrow>
      (\<exists>err. readConfig B (Parsed q) = Inl err
           \<and> run B depth (Parsed q) world = Some (ConfigurationError err)))
   \<and> (readConfig B file = Inr cfg \<longrightarrow>
        int (length (prefix cfg)) + int (length (suffix cfg)) < domainLength cfg
        \<and> topLevelDomain cfg \<in> set SUPPORTED_TLDS)
   \<and> (readConfig B file = Inl err' \<longrightarrow> run B depth file world = Some (ConfigurationError err'))
   \<and> (toLowerCase (String_conv B (nullish v (JString (js ''de'')))) \<notin> set SUPPORTED_TLDS \<longrightarrow>
        (\<exists>err. run B depth (Parsed (q'\<lparr>p_topLevelDomain := v\<rparr>)) world =
                 Some (ConfigurationError err)))
   \<and> (tld \<notin> set SUPPORTED_TLDS \<longrightarrow>
        getWhoisProvider tld = Inl (Error (js ''Unsupported TLD: '' @ tld)))
   \<and> (tld \<in> set SUPPORTED_TLDS \<longrightarrow> \<not> isl (getWhoisProvider tld))
   \<and> (topLevelDomain cfg' \<notin> set SUPPORTED_TLDS \<longrightarrow>
        run_config depth cfg' world =
          Some (UnexpectedError (Error (js ''Unsupported TLD: '' @ topLevelDomain cfg'))))"
proof -
  have a: "\<exists>err. readConfig B (Parsed q) = Inl err
           \<and> run B depth (Parsed q) world = Some (ConfigurationError err)"
    if "Number_conv B (p_length q) = Fin (of_int n)"
      "nullish (p_prefix q) (JString []) = JString pre"
      "nullish (p_suffix q) (JString []) = JString suf"
      "int (length pre) + int (length suf) \<ge> n"
  proof -
    from readConfig_affix_too_long [OF that]
    obtain err where "readConfig B (Parsed q) = Inl err"
      by (cases "readConfig B (Parsed q)") auto
    then show ?thesis by (simp add: run_def)
  qed
  have c: "readConfig B file = Inl err' \<longrightarrow> run B depth file world = Some (ConfigurationError err')"
    by (simp add: run_def)
  have g: "\<exists>err. run B depth (Parsed (q'\<lparr>p_topLevelDomain := v\<rparr>)) world =
                 Some (ConfigurationError err)"
    if "toLowerCase (String_conv B (nullish v (JString (js ''de'')))) \<notin> set SUPPORTED_TLDS"
  proof -
    from readConfig_topLevelDomain_rejected [OF that, of q']
    obtain err where "readConfig B (Parsed (q'\<lparr>p_topLevelDomain := v\<rparr>)) = Inl err"
      by (cases "readConfig B (Parsed (q'\<lparr>p_topLevelDomain := v\<rparr>))") auto
    then show ?thesis by (simp add: run_def)
  qed
  have f: "topLevelDomain cfg' \<notin> set SUPPORTED_TLDS \<longrightarrow>
        run_config depth cfg' world =
          Some (UnexpectedError (Error (js ''Unsupported TLD: '' @ topLevelDomain cfg')))"
    by (simp add: run_config_def getWhoisProvider_unsupported)
  show ?thesis
    using a c f g readConfig_accepted [of B "file" cfg] getWhoisProvider_unsupported [of tld]
      getWhoisProvider_supported [of tld]
    by blast
qed

theorem invalid_configuration_is_fatal_witness:
  "readConfig \<lparr>StringToNumber = (\<lambda>s. NaN), NumberToString = (\<lambda>n. [])\<rparr>
     (Parsed \<lparr>p_length = JNumber (Fin 4), p_prefix = JString (js ''ab''),
        p_suffix = JString (js ''cd''), p_intervalMs = JUndefined,
        p_topLevelDomain = JUndefined\<rparr>) =
     Inl (Error (js ''prefix + suffix length must be shorter than the domain length.''))
   \<and> run \<lparr>StringToNumber = (\<lambda>s. NaN), NumberToString = (\<lambda>n. [])\<rparr> 0
     (Parsed \<lparr>p_length = JNumber (Fin 4), p_prefix = JString (js ''ab''),
        p_suffix = JString (js ''cd''), p_intervalMs = JUndefined,
        p_topLevelDomain = JUndefined\<rparr>) (\<lambda>k cmd args. SpawnFailed TypeError) =
     Some (ConfigurationError
       (Error (js ''prefix + suffix length must be shorter than the domain length.'')))
   \<and> getWhoisProvider (js ''DE'') = Inl (Error (js ''Unsupported TLD: DE''))"
proof -
  let ?B = "\<lparr>StringToNumber = (\<lambda>s. NaN), NumberToString = (\<lambda>n. [])\<rparr>"
  let ?q = "\<lparr>p_length = JNumber (Fin 4), p_prefix = JString (js ''ab''),
        p_suffix = JString (js ''cd''), p_intervalMs = JUndefined,
        p_topLevelDomain = JUndefined\<rparr>"
  have r: "readConfig ?B (Parsed ?q) =
     Inl (Error (js ''prefix + suffix length must be shorter than the domain length.''))"
    by (simp add: readConfig_def validateAffix_def MIN_LENGTH_def MAX_LENGTH_def js_def)
  have h: "Number_conv ?B (p_length ?q) = Fin (of_int 4)
      \<and> nullish (p_prefix ?q) (JString []) = JString (js ''ab'')
      \<and> nullish (p_suffix ?q) (JString []) = JString (js ''cd'')
      \<and> int (length (js ''ab'')) + int (length (js ''cd'')) \<ge> 4"
    by (simp add: js_def)
  have t: "js ''DE'' \<notin> set SUPPORTED_TLDS"
    by (simp add: SUPPORTED_TLDS_def js_def)
  from invalid_configuration_is_fatal
    [where B = ?B and q = ?q and n = 4 and pre = "js ''ab''" and suf = "js ''cd''"
       and depth = 0 and world = "\<lambda>k cmd args. SpawnFailed TypeError" and tld = "js ''DE''"]
    h r t
  show ?thesis by (simp add: js_def)
qed


lemma toLowerCase_eq_iff:
  assumes "\<forall>d\<in>set t. \<not> (65 \<le> d \<and> d \<le> 90)"
  shows "toLowerCase s = t \<longleftrightarrow> case_variant s t"
  using assms
proof (induction s arbitrary: t)
  case Nil
  then show ?case by (auto simp: toLowerCase_def case_variant_def)
next
  case (Cons c cs)
  show ?case
  proof (cases t)
    case Nil
    then show ?thesis by (simp add: toLowerCase_def case_variant_def)
  next
    case (Cons d ds)
    with Cons.prems have d: "\<not> (65 \<le> d \<and> d \<le> 90)" and ds: "\<forall>d\<in>set ds. \<not> (65 \<le> d \<and> d \<le> 90)"
      by simp_all
    have "(if 65 \<le> c \<and> c \<le> 90 then c + 32 else c) = d \<longleftrightarrow>
            c = d \<or> (65 \<le> c \<and> c \<le> 90 \<and> d = c + 32)"
      using d by auto
    moreover have "toLowerCase cs = ds \<longleftrightarrow> case_variant cs ds"
      by (rule Cons.IH [OF ds])
    ultimately show ?thesis
      using Cons by (simp add: toLowerCase_def case_variant_def)
  qed
qed

lemma SUPPORTED_TLDS_lower:
  "t \<in> set SUPPORTED_TLDS \<Longrightarrow> \<forall>d\<in>set t. \<not> (65 \<le> d \<and> d \<le> 90)"
  by (auto simp: SUPPORTED_TLDS_def js_def)

lemma lookups_append: "lookups (es @ fs) = lookups es @ lookups fs"
  by (induction es rule: lookups.induct) simp_all

lemma lookups_step_events:
  "lookups (step_events iv tld p spawn d n) = [d @ js ''.'' @ tld]"
  by (simp add: step_events_def lookups_append split: sum.splits)

lemma lookups_run_loop:
  "lookups (trace (run_loop iv tld p world k ds st)) =
     lookups (trace st) @ map (\<lambda>d. d @ js ''.'' @ tld) ds"
  by (induction ds arbitrary: k st)
    (simp_all add: run_step_trace lookups_append lookups_step_events)

text \<open>
  C10. For a configuration whose other fields are accepted, every identifier that is a
  supported identifier (\<open>de\<close>, \<open>net\<close>, \<open>eu\<close>, \<open>com\<close>) with any of its letters in upper
  case, such as \<open>DE\<close>, is accepted, and the configuration read has the lower-case
  identifier as its top-level domain. The run then selects the provider of the
  lower-case identifier and looks up every candidate under it: the names looked up are
  the candidates followed by a dot and the lower-case identifier. An identifier that is
  no such variant of a supported one is rejected, and when the field is absent the
  top-level domain is \<open>de\<close>.
\<close>

theorem topLevelDomain_lowercased:
  assumes "readConfig B (Parsed (q\<lparr>p_topLevelDomain := JString (js ''de'')\<rparr>)) = Inr cfg"
    and "t \<in> set SUPPORTED_TLDS" and "case_variant s t"
    and "nat (domainLength cfg - int (length (prefix cfg)) - int (length (suffix cfg))) < depth"
  shows "readConfig B (Parsed (q\<lparr>p_topLevelDomain := JString s\<rparr>)) =
           Inr (cfg\<lparr>topLevelDomain := t\<rparr>)
       \<and> (\<exists>p ds. getWhoisProvider t = Inr p
             \<and> domainGenerator depth (domainLength cfg) (prefix cfg) (suffix cfg) = Some ds
             \<and> ds \<noteq> []
             \<and> run B depth (Parsed (q\<lparr>p_topLevelDomain := JString s\<rparr>)) world =
                 Some (Completed (run_loop (intervalMs cfg) t p world 0 ds initial_state))
             \<and> lookups (trace (run_loop (intervalMs cfg) t p world 0 ds initial_state)) =
                 map (\<lambda>d. d @ js ''.'' @ t) ds)
       \<and> readConfig B (Parsed (q\<lparr>p_topLevelDomain := JUndefined\<rparr>)) = Inr cfg
       \<and> topLevelDomain cfg = js ''de''
       \<and> ((\<forall>t'\<in>set SUPPORTED_TLDS. \<not> case_variant s' t') \<longrightarrow>
            isl (readConfig B (Parsed (q\<lparr>p_topLevelDomain := JString s'\<rparr>))))"
proof -
  have de: "toLowerCase (js ''de'') = js ''de''" "js ''de'' \<in> set SUPPORTED_TLDS"
    by (simp_all add: toLowerCase_def js_def SUPPORTED_TLDS_def)
  have tld: "topLevelDomain cfg = js ''de''"
    using readConfig_topLevelDomain [OF assms(1), of "JString (js ''de'')"] assms(1) de
    by (cases cfg) simp
  have low: "toLowerCase s = t"
    using assms(2,3) by (simp add: toLowerCase_eq_iff SUPPORTED_TLDS_lower)
  have rd: "readConfig B (Parsed (q\<lparr>p_topLevelDomain := JString s\<rparr>)) =
           Inr (cfg\<lparr>topLevelDomain := t\<rparr>)"
    using readConfig_topLevelDomain [OF assms(1), of "JString s"] low assms(2) by simp
  obtain p where p: "getWhoisProvider t = Inr p"
    using getWhoisProvider_supported [OF assms(2)] by (cases "getWhoisProvider t") auto
  define k where "k = nat (domainLength cfg - int (length (prefix cfg)) - int (length (suffix cfg)))"
  have "int (length (prefix cfg)) + int (length (suffix cfg)) < domainLength cfg"
    using readConfig_accepted [OF assms(1)] by simp
  then have "int (length (prefix cfg)) + int (length (suffix cfg)) + int k = domainLength cfg"
    by (simp add: k_def)
  from domainGenerator_enough [OF this, of depth] assms(4)
  have gen: "domainGenerator depth (domainLength cfg) (prefix cfg) (suffix cfg) =
               Some (map (\<lambda>middle. prefix cfg @ middle @ suffix cfg) (middles k))"
    by (simp add: k_def)
  let ?ds = "map (\<lambda>middle. prefix cfg @ middle @ suffix cfg) (middles k)"
  have ne: "?ds \<noteq> []"
    using middles_nonempty [of k] by simp
  have rn: "run B depth (Parsed (q\<lparr>p_topLevelDomain := JString s\<rparr>)) world =
                 Some (Completed (run_loop (intervalMs cfg) t p world 0 ?ds initial_state))"
    by (simp add: run_def rd run_config_def p gen)
  have lk: "lookups (trace (run_loop (intervalMs cfg) t p world 0 ?ds initial_state)) =
                 map (\<lambda>d. d @ js ''.'' @ t) ?ds"
    by (simp add: lookups_run_loop initial_state_def)
  have un: "readConfig B (Parsed (q\<lparr>p_topLevelDomain := JUndefined\<rparr>)) = Inr cfg"
    using readConfig_topLevelDomain [OF assms(1), of JUndefined] de tld by simp
  have rej: "isl (readConfig B (Parsed (q\<lparr>p_topLevelDomain := JString s'\<rparr>)))"
    if "\<forall>t'\<in>set SUPPORTED_TLDS. \<not> case_variant s' t'"
  proof -
    have "toLowerCase s' \<notin> set SUPPORTED_TLDS"
    proof
      assume in_set: "toLowerCase s' \<in> set SUPPORTED_TLDS"
      then have "case_variant s' (toLowerCase s')"
        using toLowerCase_eq_iff [OF SUPPORTED_TLDS_lower [OF in_set], of s'] by simp
      with that in_set show False by blast
    qed
    then show ?thesis
      using readConfig_topLevelDomain_rejected [of B "JString s'" q] by simp
  qed
  show ?thesis
    using rd p gen ne rn lk un tld rej by blast
qed

theorem topLevelDomain_lowercased_witness:
  "readConfig \<lparr>StringToNumber = (\<lambda>s. NaN), NumberToString = (\<lambda>n. [])\<rparr>
     (Parsed \<lparr>p_length = JNumber (Fin 2), p_prefix = JString (js ''a''),
        p_suffix = JUndefined, p_intervalMs = JUndefined,
        p_topLevelDomain = JString (js ''DE'')\<rparr>) =
     Inr \<lparr>domainLength = 2, prefix = js ''a'', suffix = [], intervalMs = 500,
          topLevelDomain = js ''de''\<rparr>
   \<and> (\<exists>p ds. getWhoisProvider (js ''de'') = Inr p
         \<and> run \<lparr>StringToNumber = (\<lambda>s. NaN), NumberToString = (\<lambda>n. [])\<rparr> 2
             (Parsed \<lparr>p_length = JNumber (Fin 2), p_prefix = JString (js ''a''),
                p_suffix = JUndefined, p_intervalMs = JUndefined,
                p_topLevelDomain = JString (js ''DE'')\<rparr>)
             (\<lambda>k cmd args. Closed (Some 0) (js ''Status: free'') []) =
             Some (Completed (run_loop 500 (js ''de'') p
               (\<lambda>k cmd args. Closed (Some 0) (js ''Status: free'') []) 0 ds initial_state))
         \<and> lookups (trace (run_loop 500 (js ''de'') p
               (\<lambda>k cmd args. Closed (Some 0) (js ''Status: free'') []) 0 ds initial_state)) =
             map (\<lambda>d. d @ js ''.'' @ js ''de'') ds)"
proof -
  let ?B = "\<lparr>StringToNumber = (\<lambda>s. NaN), NumberToString = (\<lambda>n. [])\<rparr>"
  let ?q = "\<lparr>p_length = JNumber (Fin 2), p_prefix = JString (js ''a''),
        p_suffix = JUndefined, p_intervalMs = JUndefined,
        p_topLevelDomain = JNull\<rparr>"
  let ?cfg = "\<lparr>domainLength = 2, prefix = js ''a'', suffix = [], intervalMs = 500,
          topLevelDomain = js ''de''\<rparr>"
  have h: "readConfig ?B (Parsed (?q\<lparr>p_topLevelDomain := JString (js ''de'')\<rparr>)) = Inr ?cfg"
    by (simp add: readConfig_def validateAffix_def MIN_LENGTH_def MAX_LENGTH_def
        DEFAULT_INTERVAL_MS_def SUPPORTED_TLDS_def toLowerCase_def js_def)
  have t: "js ''de'' \<in> set SUPPORTED_TLDS"
    by (simp add: SUPPORTED_TLDS_def)
  have v: "case_variant (js ''DE'') (js ''de'')"
    by (simp add: case_variant_def js_def)
  have d: "nat (domainLength ?cfg - int (length (prefix ?cfg)) - int (length (suffix ?cfg))) < 2"
    by (simp add: js_def)
  from topLevelDomain_lowercased [OF h t v d,
      of "\<lambda>k cmd args. Closed (Some 0) (js ''Status: free'') []"]
  show ?thesis by simp blast
qed


end
